theory Spec2Isabelle
  imports Complex_Main "HOL-Library.AList"
begin

section \<open>The data synchronisation layer of the dashboard (services/dataService.ts)\<close>

text \<open>
  The development embeds the two classes of \<^verbatim>\<open>dataService.ts\<close>: \<^verbatim>\<open>DataService\<close> (a caching
  fetcher with retry and backoff) and \<^verbatim>\<open>RealTimeManager\<close> (one shared polling timer per stream
  key). A JavaScript \<^verbatim>\<open>Map\<close> keeps its entries in insertion order, so it is an association
  list handled with \<open>map_of\<close>, \<open>AList.update\<close> (\<^verbatim>\<open>set\<close>: in place for a key already there, at
  the end for a new one) and \<open>AList.delete\<close>. A \<^verbatim>\<open>Set\<close> of function references is a list
  without duplicates in insertion order. A rejected promise is \<open>Inl\<close> of the error, a fulfilled
  one \<open>Inr\<close> of the value.
\<close>

subsection \<open>Values and the backend\<close>

text \<open>What \<^verbatim>\<open>response.json()\<close> can produce, and \<^verbatim>\<open>undefined\<close> (the value of an async function
  that falls off its end).\<close>

datatype jsval =
    Undefined
  | JNull
  | JBool bool
  | JNum real
  | JStr string
  | JArr "jsval list"
  | JObj "(string \<times> jsval) list"

text \<open>The three places where an attempt throws: \<^verbatim>\<open>fetch\<close> rejects, the status is not ok
  (\<^verbatim>\<open>new Error(`HTTP ${status}: ${statusText}`)\<close>), \<^verbatim>\<open>response.json()\<close> rejects.\<close>

datatype fetch_error =
    NetworkError
  | HttpError nat string
  | ParseError

text \<open>What the backend does with one request: no response at all, or a response with its
  status, status text and body (\<open>None\<close> when the body is not JSON).\<close>

datatype reply =
    Unreachable
  | Response nat string "jsval option"

text \<open>The backend answers the \<open>n\<close>-th request for a URL (counted from 0) after some
  milliseconds with a reply. Every run of the program determines such a function.\<close>

type_synonym backend = "string \<Rightarrow> nat \<Rightarrow> int \<times> reply"

type_synonym outcome = "fetch_error + jsval"

text \<open>The \<^verbatim>\<open>DataService\<close> singleton and what it does to the outside: the cache
  (endpoint to data and timestamp), the clock read by \<^verbatim>\<open>Date.now()\<close>, the URLs requested so
  far, and the delays handed to \<^verbatim>\<open>setTimeout\<close> by the backoff.\<close>

record world =
  cache :: "(string \<times> jsval \<times> int) list"
  now :: int
  requests :: "string list"
  delays :: "int list"

definition baseUrl :: string where
  "baseUrl = ''http://localhost:8002''"

definition cacheTimeout :: int where
  "cacheTimeout = 5 * 60 * 1000"

text \<open>\<^verbatim>\<open>response.ok\<close>: the status is in the range 200 to 299.\<close>

definition ok :: "nat \<Rightarrow> bool" where
  "ok status = (200 \<le> status \<and> status \<le> 299)"

text \<open>The body of the \<^verbatim>\<open>try\<close> block of one attempt, on the reply it gets.\<close>

fun attempt :: "reply \<Rightarrow> outcome" where
  "attempt Unreachable = Inl NetworkError"
| "attempt (Response status statusText body) =
     (if \<not> ok status then Inl (HttpError status statusText)
      else case body of None \<Rightarrow> Inl ParseError | Some data \<Rightarrow> Inr data)"

text \<open>\<^verbatim>\<open>await fetch(`${this.baseUrl}${endpoint}`)\<close> and the reading of the response: the
  request is logged, the clock advances by the time the backend took.\<close>

definition request :: "backend \<Rightarrow> string \<Rightarrow> world \<Rightarrow> outcome \<times> world" where
  "request net endpoint w =
     (let url = baseUrl @ endpoint;
          answer = net url (count_list (requests w) url)
      in (attempt (snd answer),
          w\<lparr>requests := requests w @ [url], now := now w + fst answer\<rparr>))"

text \<open>\<^verbatim>\<open>await new Promise(resolve => setTimeout(resolve, Math.pow(2, i) * 1000))\<close>: the delay
  is recorded and the clock advances by it.\<close>

definition backoff :: "nat \<Rightarrow> world \<Rightarrow> world" where
  "backoff i w = w\<lparr>delays := delays w @ [2 ^ i * 1000], now := now w + 2 ^ i * 1000\<rparr>"

text \<open>The \<^verbatim>\<open>for (let i = 0; i < retries; i++)\<close> loop from index \<open>i\<close> on; \<open>cached\<close> is the entry
  read before the loop. Falling out of the loop resolves to \<^verbatim>\<open>undefined\<close>.\<close>

function retry_loop ::
  "backend \<Rightarrow> string \<Rightarrow> (jsval \<times> int) option \<Rightarrow> nat \<Rightarrow> nat \<Rightarrow> world \<Rightarrow> outcome \<times> world" where
  "retry_loop net endpoint cached retries i w =
     (if i < retries then
        (case fst (request net endpoint w) of
           Inr data \<Rightarrow>
             (Inr data,
              (snd (request net endpoint w))
                \<lparr>cache := AList.update endpoint (data, now (snd (request net endpoint w)))
                            (cache (snd (request net endpoint w)))\<rparr>)
         | Inl error \<Rightarrow>
             if i = retries - 1 then
               (case cached of
                  Some entry \<Rightarrow> (Inr (fst entry), snd (request net endpoint w))
                | None \<Rightarrow> (Inl error, snd (request net endpoint w)))
             else retry_loop net endpoint cached retries (Suc i)
                    (backoff i (snd (request net endpoint w))))
      else (Inr Undefined, w))"
  by pat_completeness auto
termination
  by (relation "measure (\<lambda>(net, endpoint, cached, retries, i, w). retries - i)") auto

declare retry_loop.simps [simp del]

text \<open>\<^verbatim>\<open>fetchWithRetry(endpoint, retries = 3)\<close>.\<close>

definition fetchWithRetry :: "backend \<Rightarrow> string \<Rightarrow> nat \<Rightarrow> world \<Rightarrow> outcome \<times> world" where
  "fetchWithRetry net endpoint retries w =
     (let cached = map_of (cache w) endpoint in
      case cached of
        Some entry \<Rightarrow>
          if now w - snd entry < cacheTimeout then (Inr (fst entry), w)
          else retry_loop net endpoint cached retries 0 w
      | None \<Rightarrow> retry_loop net endpoint cached retries 0 w)"

subsection \<open>Endpoint strings\<close>

text \<open>Strings are sequences of bytes (UTF-8). \<^verbatim>\<open>Number.prototype.toString\<close> on an integer
  below \<open>10\<^sup>2\<^sup>1\<close> in absolute value is its decimal notation.\<close>

fun decimal :: "nat \<Rightarrow> string" where
  "decimal n =
     (if n < 10 then [''0123456789'' ! n]
      else decimal (n div 10) @ [''0123456789'' ! (n mod 10)])"

declare decimal.simps [simp del]

definition number_toString :: "int \<Rightarrow> string" where
  "number_toString n = (if n < 0 then CHR ''-'' # decimal (nat (- n)) else decimal (nat n))"

text \<open>\<^verbatim>\<open>URLSearchParams.prototype.toString\<close> serialises names and values as
  \<^verbatim>\<open>application/x-www-form-urlencoded\<close>: letters, digits and \<^verbatim>\<open>*-._\<close> stay, a space becomes
  \<^verbatim>\<open>+\<close>, every other byte becomes \<^verbatim>\<open>%\<close> and two upper-case hexadecimal digits.\<close>

definition form_safe :: "char \<Rightarrow> bool" where
  "form_safe c =
     (c \<in> set ''ABCDEFGHIJKLMNOPQRSTUVWXYZabcdefghijklmnopqrstuvwxyz0123456789*-._'')"

definition form_byte :: "char \<Rightarrow> string" where
  "form_byte c =
     (if form_safe c then [c]
      else if c = CHR '' '' then ''+''
      else [CHR ''%'', ''0123456789ABCDEF'' ! (of_char c div 16),
            ''0123456789ABCDEF'' ! (of_char c mod 16)])"

definition form_urlencode :: "string \<Rightarrow> string" where
  "form_urlencode s = concat (map form_byte s)"

text \<open>The query of \<^verbatim>\<open>getPredictions\<close>: \<^verbatim>\<open>limit\<close> always, \<^verbatim>\<open>city\<close> when it is given, not
  empty and not \<^verbatim>\<open>'all'\<close>.\<close>

definition predictions_endpoint :: "int \<Rightarrow> string option \<Rightarrow> string" where
  "predictions_endpoint limit city =
     ''/predictions?'' @ form_urlencode ''limit'' @ ''='' @ form_urlencode (number_toString limit) @
     (case city of
        None \<Rightarrow> []
      | Some c \<Rightarrow>
          if c \<noteq> [] \<and> c \<noteq> ''all''
          then ''&'' @ form_urlencode ''city'' @ ''='' @ form_urlencode c
          else [])"

definition historical_endpoint :: "int \<Rightarrow> string" where
  "historical_endpoint hours = ''/analytics/historical?hours='' @ number_toString hours"

subsection \<open>The API methods\<close>

definition getCities :: "backend \<Rightarrow> world \<Rightarrow> outcome \<times> world" where
  "getCities net w = fetchWithRetry net ''/cities'' 3 w"

definition getPredictions :: "backend \<Rightarrow> int \<Rightarrow> string option \<Rightarrow> world \<Rightarrow> outcome \<times> world" where
  "getPredictions net limit city w = fetchWithRetry net (predictions_endpoint limit city) 3 w"

definition getMetrics :: "backend \<Rightarrow> world \<Rightarrow> outcome \<times> world" where
  "getMetrics net w = fetchWithRetry net ''/analytics/metrics'' 3 w"

definition getHistoricalData :: "backend \<Rightarrow> int \<Rightarrow> world \<Rightarrow> outcome \<times> world" where
  "getHistoricalData net hours w = fetchWithRetry net (historical_endpoint hours) 3 w"

definition getRealtimeTraffic :: "backend \<Rightarrow> world \<Rightarrow> outcome \<times> world" where
  "getRealtimeTraffic net w = fetchWithRetry net ''/traffic/realtime'' 3 w"

definition getHealthStatus :: "backend \<Rightarrow> world \<Rightarrow> outcome \<times> world" where
  "getHealthStatus net w = fetchWithRetry net ''/health'' 3 w"

definition getModelStatus :: "backend \<Rightarrow> world \<Rightarrow> outcome \<times> world" where
  "getModelStatus net w = fetchWithRetry net ''/models/status'' 3 w"

text \<open>A call of one of the methods with its arguments, the cache key it uses, and its run.\<close>

datatype api_call =
    GetCities
  | GetPredictions int "string option"
  | GetMetrics
  | GetHistoricalData int
  | GetRealtimeTraffic
  | GetHealthStatus
  | GetModelStatus

fun endpoint_of :: "api_call \<Rightarrow> string" where
  "endpoint_of GetCities = ''/cities''"
| "endpoint_of (GetPredictions limit city) = predictions_endpoint limit city"
| "endpoint_of GetMetrics = ''/analytics/metrics''"
| "endpoint_of (GetHistoricalData hours) = historical_endpoint hours"
| "endpoint_of GetRealtimeTraffic = ''/traffic/realtime''"
| "endpoint_of GetHealthStatus = ''/health''"
| "endpoint_of GetModelStatus = ''/models/status''"

fun invoke :: "backend \<Rightarrow> api_call \<Rightarrow> world \<Rightarrow> outcome \<times> world" where
  "invoke net GetCities w = getCities net w"
| "invoke net (GetPredictions limit city) w = getPredictions net limit city w"
| "invoke net GetMetrics w = getMetrics net w"
| "invoke net (GetHistoricalData hours) w = getHistoricalData net hours w"
| "invoke net GetRealtimeTraffic w = getRealtimeTraffic net w"
| "invoke net GetHealthStatus w = getHealthStatus net w"
| "invoke net GetModelStatus w = getModelStatus net w"

subsection \<open>Batch load\<close>

text \<open>The object \<^verbatim>\<open>loadAllData\<close> resolves to.\<close>

record dashboard =
  cities :: jsval
  predictions :: jsval
  metrics :: jsval
  historical :: jsval
  realtime :: jsval
  health :: jsval

text \<open>An element of the array \<^verbatim>\<open>Promise.allSettled\<close> resolves to; it never rejects.\<close>

datatype settled =
    Fulfilled jsval
  | Rejected fetch_error

fun settle :: "outcome \<Rightarrow> settled" where
  "settle (Inr v) = Fulfilled v"
| "settle (Inl e) = Rejected e"

text \<open>\<^verbatim>\<open>x.status === 'fulfilled' ? x.value : d\<close>.\<close>

fun value_or :: "settled \<Rightarrow> jsval \<Rightarrow> jsval" where
  "value_or (Fulfilled v) d = v"
| "value_or (Rejected e) d = d"

text \<open>The fallback of the \<^verbatim>\<open>metrics\<close> field; \<open>stamp\<close> is \<^verbatim>\<open>new Date().toISOString()\<close>.\<close>

definition default_metrics :: "string \<Rightarrow> jsval" where
  "default_metrics stamp =
     JObj [(''totalPredictions'', JNum 0), (''accuracy'', JNum 0), (''avgResponseTime'', JNum 0),
           (''activeSegments'', JNum 0), (''citiesMonitored'', JNum 0),
           (''lastUpdated'', JStr stamp)]"

text \<open>The six calls are started together: each reads the clock of the start, and the array
  of results is there when the last of them has settled. They use six different cache keys
  and URLs, so the cache and the request counts can be threaded through them one after the
  other; the logs then list the requests and delays call by call, not in the order of time. \<open>toISOString\<close> is the platform's rendering of a time as text. The \<^verbatim>\<open>catch\<close> block
  rethrows, and nothing in the \<^verbatim>\<open>try\<close> block throws.\<close>

definition loadAllData ::
  "backend \<Rightarrow> (int \<Rightarrow> string) \<Rightarrow> world \<Rightarrow> (fetch_error + dashboard) \<times> world" where
  "loadAllData net toISOString w =
     (let r1 = getCities net w;
          r2 = getPredictions net 100 None ((snd r1)\<lparr>now := now w\<rparr>);
          r3 = getMetrics net ((snd r2)\<lparr>now := now w\<rparr>);
          r4 = getHistoricalData net 24 ((snd r3)\<lparr>now := now w\<rparr>);
          r5 = getRealtimeTraffic net ((snd r4)\<lparr>now := now w\<rparr>);
          r6 = getHealthStatus net ((snd r5)\<lparr>now := now w\<rparr>);
          w' = (snd r6)\<lparr>now := max (now (snd r1)) (max (now (snd r2)) (max (now (snd r3))
                 (max (now (snd r4)) (max (now (snd r5)) (now (snd r6))))))\<rparr>
      in (Inr \<lparr>cities = value_or (settle (fst r1)) (JArr []),
                predictions = value_or (settle (fst r2)) (JArr []),
                metrics = value_or (settle (fst r3)) (default_metrics (toISOString (now w'))),
                historical = value_or (settle (fst r4)) (JArr []),
                realtime = value_or (settle (fst r5)) (JArr []),
                health = value_or (settle (fst r6)) (JObj [(''status'', JStr ''offline'')])\<rparr>,
          w'))"

subsection \<open>The real-time manager\<close>

text \<open>A callback is known by its reference. A timer handle (\<^verbatim>\<open>NodeJS.Timeout\<close>) is an object
  and so always truthy: \<^verbatim>\<open>if (interval)\<close> asks whether the map had an entry. Beside the two
  maps of the class, the state holds the runtime's table of live interval timers (handle, the
  key its closure captured, the period) and the next handle \<^verbatim>\<open>setInterval\<close> gives out.\<close>

type_synonym callback = nat

record hub =
  intervals :: "(string \<times> nat) list"
  subscribers :: "(string \<times> callback list) list"
  timers :: "(nat \<times> string \<times> int) list"
  next_timer :: nat

definition new_hub :: hub where
  "new_hub = \<lparr>intervals = [], subscribers = [], timers = [], next_timer = 0\<rparr>"

text \<open>\<^verbatim>\<open>Set.prototype.add\<close> and \<^verbatim>\<open>Set.prototype.delete\<close>.\<close>

definition set_add :: "callback \<Rightarrow> callback list \<Rightarrow> callback list" where
  "set_add cb cbs = (if cb \<in> set cbs then cbs else cbs @ [cb])"

definition set_delete :: "callback \<Rightarrow> callback list \<Rightarrow> callback list" where
  "set_delete cb cbs = removeAll cb cbs"

definition clearInterval :: "nat \<Rightarrow> (nat \<times> string \<times> int) list \<Rightarrow> (nat \<times> string \<times> int) list" where
  "clearInterval h ts = AList.delete h ts"

text \<open>\<^verbatim>\<open>subscribe(key, callback, intervalMs = 10000)\<close>. The function it returns is
  \<open>unsubscribe key callback\<close> below.\<close>

definition subscribe :: "string \<Rightarrow> callback \<Rightarrow> int \<Rightarrow> hub \<Rightarrow> hub" where
  "subscribe key callback intervalMs s =
     (let s1 = (if map_of (subscribers s) key = None
                then s\<lparr>subscribers := AList.update key [] (subscribers s)\<rparr> else s);
          s2 = (case map_of (subscribers s1) key of
                  Some cbs \<Rightarrow>
                    s1\<lparr>subscribers := AList.update key (set_add callback cbs) (subscribers s1)\<rparr>
                | None \<Rightarrow> s1)
      in if map_of (intervals s2) key = None
         then s2\<lparr>timers := timers s2 @ [(next_timer s2, key, intervalMs)],
                 next_timer := Suc (next_timer s2),
                 intervals := AList.update key (next_timer s2) (intervals s2)\<rparr>
         else s2)"

definition unsubscribe :: "string \<Rightarrow> callback \<Rightarrow> hub \<Rightarrow> hub" where
  "unsubscribe key callback s =
     (case map_of (subscribers s) key of
        None \<Rightarrow> s
      | Some cbs \<Rightarrow>
          if set_delete callback cbs = [] then
            (let s1 = (case map_of (intervals s) key of
                         Some h \<Rightarrow> s\<lparr>timers := clearInterval h (timers s),
                                     intervals := AList.delete key (intervals s)\<rparr>
                       | None \<Rightarrow> s)
             in s1\<lparr>subscribers := AList.delete key (subscribers s1)\<rparr>)
          else s\<lparr>subscribers := AList.update key (set_delete callback cbs) (subscribers s)\<rparr>)"

definition stopAll :: "hub \<Rightarrow> hub" where
  "stopAll s =
     s\<lparr>timers := fold clearInterval (map snd (intervals s)) (timers s),
       intervals := [], subscribers := []\<rparr>"

text \<open>The operations a client can perform, and a run of them from a state.\<close>

datatype hub_op =
    Subscribe string callback int
  | Unsubscribe string callback
  | StopAll

fun apply_op :: "hub_op \<Rightarrow> hub \<Rightarrow> hub" where
  "apply_op (Subscribe key callback intervalMs) s = subscribe key callback intervalMs s"
| "apply_op (Unsubscribe key callback) s = unsubscribe key callback s"
| "apply_op StopAll s = stopAll s"

definition run_ops :: "hub_op list \<Rightarrow> hub \<Rightarrow> hub" where
  "run_ops ops s = fold apply_op ops s"

text \<open>The \<^verbatim>\<open>switch (key)\<close> of the timer's function: the method of the key, or \<open>None\<close> for the
  \<^verbatim>\<open>default: return\<close>.\<close>

definition stream_call :: "backend \<Rightarrow> string \<Rightarrow> world \<Rightarrow> (outcome \<times> world) option" where
  "stream_call net key w =
     (if key = ''predictions'' then Some (getPredictions net 50 None w)
      else if key = ''metrics'' then Some (getMetrics net w)
      else if key = ''realtime'' then Some (getRealtimeTraffic net w)
      else if key = ''health'' then Some (getHealthStatus net w)
      else None)"

text \<open>\<^verbatim>\<open>subs.forEach(cb => cb(data))\<close>: the calls made, in the order of the set, and the
  callback that threw, if one did (\<open>throws cb data\<close> says whether \<open>cb\<close> throws on \<open>data\<close>).
  The loop runs over the set as it is when the data arrives. That is what the code does for
  callbacks that do not call \<^verbatim>\<open>subscribe\<close>, an unsubscribe function or \<^verbatim>\<open>stopAll\<close> while they
  run; a callback that does so changes the set under the loop, and such callbacks are outside
  this model.\<close>

fun forEach :: "(callback \<Rightarrow> jsval \<Rightarrow> bool) \<Rightarrow> callback list \<Rightarrow> jsval \<Rightarrow>
    (callback \<times> jsval) list \<times> callback option" where
  "forEach throws [] data = ([], None)"
| "forEach throws (cb # cbs) data =
     (if throws cb data then ([(cb, data)], Some cb)
      else ((cb, data) # fst (forEach throws cbs data), snd (forEach throws cbs data)))"

text \<open>How one run of the timer's function ends.\<close>

datatype tick_end =
    Returned
  | Notified
  | CaughtFetch fetch_error
  | CaughtCallback callback

text \<open>The function given to \<^verbatim>\<open>setInterval\<close> for \<open>key\<close>: the new world, the calls made to
  callbacks, and how it ended. The subscribers are those of the hub when the data arrives.\<close>

definition tick ::
  "backend \<Rightarrow> (callback \<Rightarrow> jsval \<Rightarrow> bool) \<Rightarrow> string \<Rightarrow> hub \<Rightarrow> world \<Rightarrow>
     world \<times> (callback \<times> jsval) list \<times> tick_end" where
  "tick net throws key s w =
     (case stream_call net key w of
        None \<Rightarrow> (w, [], Returned)
      | Some r \<Rightarrow>
          (case fst r of
             Inl error \<Rightarrow> (snd r, [], CaughtFetch error)
           | Inr data \<Rightarrow>
               (case map_of (subscribers s) key of
                  None \<Rightarrow> (snd r, [], Notified)
                | Some cbs \<Rightarrow>
                    (case snd (forEach throws cbs data) of
                       None \<Rightarrow> (snd r, fst (forEach throws cbs data), Notified)
                     | Some cb \<Rightarrow>
                         (snd r, fst (forEach throws cbs data), CaughtCallback cb)))))"

text \<open>The runtime fires the timer with handle \<open>h\<close>, if it is live.\<close>

definition fire ::
  "backend \<Rightarrow> (callback \<Rightarrow> jsval \<Rightarrow> bool) \<Rightarrow> nat \<Rightarrow> hub \<Rightarrow> world \<Rightarrow>
     world \<times> (callback \<times> jsval) list \<times> tick_end" where
  "fire net throws h s w =
     (case map_of (timers s) h of
        None \<Rightarrow> (w, [], Returned)
      | Some t \<Rightarrow> tick net throws (fst t) s w)"

subsection \<open>Vocabulary of the statements and example inputs\<close>

text \<open>What the \<open>k\<close>-th request of a call started in \<open>w\<close> for \<open>endpoint\<close> leads to (\<open>k\<close> counted
  from 0): the backend's reply to it, run through the \<^verbatim>\<open>try\<close> block.\<close>

definition outcome_at :: "backend \<Rightarrow> string \<Rightarrow> world \<Rightarrow> nat \<Rightarrow> outcome" where
  "outcome_at net endpoint w k =
     attempt (snd (net (baseUrl @ endpoint) (count_list (requests w) (baseUrl @ endpoint) + k)))"

text \<open>The test at the head of \<^verbatim>\<open>fetchWithRetry\<close>: an entry is there and younger than the
  timeout.\<close>

definition fresh :: "string \<Rightarrow> world \<Rightarrow> bool" where
  "fresh endpoint w =
     (case map_of (cache w) endpoint of
        Some entry \<Rightarrow> now w - snd entry < cacheTimeout
      | None \<Rightarrow> False)"

definition empty_world :: world where
  "empty_world = \<lparr>cache = [], now = 0, requests = [], delays = []\<rparr>"

text \<open>A backend that answers the first \<open>k\<close> requests for a URL with status 500 and every later
  one with a JSON body, each after 20 ms.\<close>

definition failing_first :: "nat \<Rightarrow> backend" where
  "failing_first k url n =
     (if n < k then (20, Response 500 ''Internal Server Error'' None)
      else (20, Response 200 ''OK'' (Some (JStr ''ready''))))"

text \<open>A world whose only cache entry is older than the timeout.\<close>

definition stale_world :: world where
  "stale_world =
     \<lparr>cache = [(''/analytics/metrics'', JStr ''old'', 0)], now = 400000, requests = [],
      delays = []\<rparr>"

text \<open>The world after \<^verbatim>\<open>getPredictions(50)\<close> on an empty cache and a healthy backend.\<close>

definition warm_world :: world where
  "warm_world = snd (getPredictions (failing_first 0) 50 None empty_world)"

text \<open>The world after \<^verbatim>\<open>getPredictions(50)\<close> on an empty cache and a backend that fails the
  first request and answers the second.\<close>

definition retried_world :: world where
  "retried_world = snd (getPredictions (failing_first 1) 50 None empty_world)"

text \<open>All that a call for \<open>endpoint\<close> reads of a world: the cache entry of the key, the
  clock, and how many requests for its URL went before.\<close>

definition view :: "string \<Rightarrow> world \<Rightarrow> (jsval \<times> int) option \<times> int \<times> nat" where
  "view endpoint w =
     (map_of (cache w) endpoint, now w, count_list (requests w) (baseUrl @ endpoint))"

text \<open>A backend that never answers.\<close>

definition unreachable :: backend where
  "unreachable url n = (0, Unreachable)"

text \<open>What holds of every state the manager can reach: handles in the runtime's table are
  different; a key has a timer entry exactly when it has a subscriber entry; a subscriber set
  in the map is never empty; every live timer was given out earlier and is the one entered
  for its key; every entry of \<^verbatim>\<open>intervals\<close> is a live timer of that key.\<close>

definition hub_wf :: "hub \<Rightarrow> bool" where
  "hub_wf s \<longleftrightarrow>
     distinct (map fst (timers s)) \<and>
     (\<forall>k. (map_of (intervals s) k = None) = (map_of (subscribers s) k = None)) \<and>
     (\<forall>k cbs. map_of (subscribers s) k = Some cbs \<longrightarrow> cbs \<noteq> [] \<and> distinct cbs) \<and>
     (\<forall>h k ms. (h, k, ms) \<in> set (timers s) \<longrightarrow>
        h < next_timer s \<and> map_of (intervals s) k = Some h) \<and>
     (\<forall>k h. map_of (intervals s) k = Some h \<longrightarrow> (\<exists>ms. (h, k, ms) \<in> set (timers s)))"

text \<open>The live timers whose function polls \<open>key\<close>.\<close>

definition timers_of :: "string \<Rightarrow> hub \<Rightarrow> (nat \<times> string \<times> int) list" where
  "timers_of key s = filter (\<lambda>t. fst (snd t) = key) (timers s)"

text \<open>Subscriptions to one key, each with its callback and its period.\<close>

definition subscriptions :: "string \<Rightarrow> (callback \<times> int) list \<Rightarrow> hub_op list" where
  "subscriptions key ps = map (\<lambda>p. Subscribe key (fst p) (snd p)) ps"

text \<open>The operations that neither stop everything nor are an unsubscribe function of
  \<open>key\<close>.\<close>

fun keeps :: "string \<Rightarrow> hub_op \<Rightarrow> bool" where
  "keeps key (Subscribe k cb ms) = True"
| "keeps key (Unsubscribe k cb) = (k \<noteq> key)"
| "keeps key StopAll = False"

text \<open>Callback 1 throws on every value, the others never.\<close>

definition first_throws :: "callback \<Rightarrow> jsval \<Rightarrow> bool" where
  "first_throws cb data = (cb = 1)"

definition none_throws :: "callback \<Rightarrow> jsval \<Rightarrow> bool" where
  "none_throws cb data = False"

text \<open>Two components subscribed to \<^verbatim>\<open>metrics\<close>, callback 1 before callback 2.\<close>

definition two_listeners :: hub where
  "two_listeners = run_ops [Subscribe ''metrics'' 1 5000, Subscribe ''metrics'' 2 15000] new_hub"

section \<open>Properties of the fetcher\<close>

subsection \<open>The loop, one step at a time\<close>

lemma retry_loop_exit:
  "\<not> i < retries \<Longrightarrow> retry_loop net e cached retries i w = (Inr Undefined, w)"
  by (subst retry_loop.simps) simp

lemma retry_loop_success:
  "i < retries \<Longrightarrow> fst (request net e w) = Inr d \<Longrightarrow>
   retry_loop net e cached retries i w =
     (Inr d, (snd (request net e w))
        \<lparr>cache := AList.update e (d, now (snd (request net e w))) (cache (snd (request net e w)))\<rparr>)"
  by (subst retry_loop.simps) simp

lemma retry_loop_last:
  "i < retries \<Longrightarrow> fst (request net e w) = Inl err \<Longrightarrow> Suc i = retries \<Longrightarrow>
   retry_loop net e cached retries i w =
     (case cached of Some entry \<Rightarrow> (Inr (fst entry), snd (request net e w))
      | None \<Rightarrow> (Inl err, snd (request net e w)))"
  by (subst retry_loop.simps) auto

lemma retry_loop_again:
  "fst (request net e w) = Inl err \<Longrightarrow> Suc i < retries \<Longrightarrow>
   retry_loop net e cached retries i w =
     retry_loop net e cached retries (Suc i) (backoff i (snd (request net e w)))"
  by (subst retry_loop.simps) auto

lemma fst_request: "fst (request net e w) = outcome_at net e w 0"
  by (simp add: request_def outcome_at_def Let_def)

lemma requests_request: "requests (snd (request net e w)) = requests w @ [baseUrl @ e]"
  by (simp add: request_def Let_def)

lemma delays_request: "delays (snd (request net e w)) = delays w"
  by (simp add: request_def Let_def)

lemma cache_request: "cache (snd (request net e w)) = cache w"
  by (simp add: request_def Let_def)

lemma backoff_fields:
  "requests (backoff i w) = requests w" "cache (backoff i w) = cache w"
  "delays (backoff i w) = delays w @ [2 ^ i * 1000]"
  by (simp_all add: backoff_def)

lemma outcome_at_next:
  "outcome_at net e (backoff i (snd (request net e w))) k = outcome_at net e w (Suc k)"
  by (simp add: outcome_at_def backoff_fields requests_request)

lemma retry_loop_first_success:
  "\<forall>j<m. isl (outcome_at net e w j) \<Longrightarrow> outcome_at net e w m = Inr d \<Longrightarrow> i + m < retries \<Longrightarrow>
   fst (retry_loop net e cached retries i w) = Inr d"
proof (induction m arbitrary: i w)
  case 0
  then show ?case by (simp add: retry_loop_success fst_request)
next
  case (Suc m)
  from Suc.prems(1) obtain err where err: "fst (request net e w) = Inl err"
    by (cases "outcome_at net e w 0") (auto simp: fst_request)
  have "fst (retry_loop net e cached retries (Suc i) (backoff i (snd (request net e w)))) = Inr d"
    using Suc.prems by (intro Suc.IH) (auto simp: outcome_at_next)
  with err Suc.prems(3) show ?case by (simp add: retry_loop_again)
qed

lemma retry_loop_all_fail:
  "i < retries \<Longrightarrow> \<forall>j<retries - i. isl (outcome_at net e w j) \<Longrightarrow>
   fst (retry_loop net e cached retries i w) =
     (case cached of Some entry \<Rightarrow> Inr (fst entry)
      | None \<Rightarrow> outcome_at net e w (retries - i - 1))"
proof (induction "retries - i" arbitrary: i w)
  case 0
  then show ?case by simp
next
  case (Suc n)
  from Suc.prems have "isl (outcome_at net e w 0)" by simp
  then obtain err where err: "fst (request net e w) = Inl err"
    by (cases "outcome_at net e w 0") (auto simp: fst_request)
  show ?case
  proof (cases "Suc i = retries")
    case True
    with err Suc.prems show ?thesis
      by (auto simp: retry_loop_last fst_request split: option.splits)
  next
    case False
    with Suc.prems have lt: "Suc i < retries" by simp
    have "fst (retry_loop net e cached retries (Suc i) (backoff i (snd (request net e w)))) =
      (case cached of Some entry \<Rightarrow> Inr (fst entry)
       | None \<Rightarrow> outcome_at net e (backoff i (snd (request net e w))) (retries - Suc i - 1))"
      using Suc.hyps(2) lt Suc.prems(2) by (intro Suc.hyps(1)) (auto simp: outcome_at_next)
    moreover have "Suc (retries - Suc i - 1) = retries - i - 1" using lt by simp
    then have "outcome_at net e (backoff i (snd (request net e w))) (retries - Suc i - 1) =
      outcome_at net e w (retries - i - 1)"
      by (simp only: outcome_at_next)
    moreover have "retry_loop net e cached retries i w =
      retry_loop net e cached retries (Suc i) (backoff i (snd (request net e w)))"
      using err lt by (rule retry_loop_again)
    ultimately show ?thesis by (simp only:)
  qed
qed

lemma retry_loop_trace:
  "\<exists>n\<le>retries - i.
     requests (snd (retry_loop net e cached retries i w)) = requests w @ replicate n (baseUrl @ e) \<and>
     delays (snd (retry_loop net e cached retries i w)) =
       delays w @ map (\<lambda>j. 2 ^ j * 1000) [i ..< i + (n - 1)] \<and>
     (i < retries \<longrightarrow> 0 < n)"
proof (induction "retries - i" arbitrary: i w)
  case 0
  then show ?case by (simp add: retry_loop_exit)
next
  case (Suc m)
  then have lt: "i < retries" by simp
  show ?case
  proof (cases "fst (request net e w)")
    case (Inr d)
    with lt show ?thesis
      by (intro exI[of _ 1]) (simp add: retry_loop_success requests_request delays_request)
  next
    case (Inl err)
    show ?thesis
    proof (cases "Suc i = retries")
      case True
      with Inl lt show ?thesis
        by (intro exI[of _ 1])
           (auto simp: retry_loop_last requests_request delays_request split: option.splits)
    next
      case False
      with lt have lt': "Suc i < retries" by simp
      let ?w = "backoff i (snd (request net e w))"
      from Suc.hyps(2) have "m = retries - Suc i" by simp
      from Suc.hyps(1)[OF this, of ?w] obtain n where n: "n \<le> retries - Suc i"
        "requests (snd (retry_loop net e cached retries (Suc i) ?w)) =
           requests ?w @ replicate n (baseUrl @ e)"
        "delays (snd (retry_loop net e cached retries (Suc i) ?w)) =
           delays ?w @ map (\<lambda>j. 2 ^ j * 1000) [Suc i ..< Suc i + (n - 1)]"
        "0 < n" using lt' by blast
      have up: "[i ..< i + n] = i # [Suc i ..< Suc i + (n - 1)]"
        using \<open>0 < n\<close> by (cases n) (simp_all add: upt_rec)
      show ?thesis
        using n lt' Inl
        by (intro exI[of _ "Suc n"])
           (simp add: retry_loop_again backoff_fields requests_request delays_request up
              replicate_append_same)
    qed
  qed
qed

lemma invoke_fetch: "invoke net c w = fetchWithRetry net (endpoint_of c) 3 w"
  by (cases c)
     (simp_all add: getCities_def getPredictions_def getMetrics_def getHistoricalData_def
        getRealtimeTraffic_def getHealthStatus_def getModelStatus_def)

lemma fetch_fresh:
  "map_of (cache w) e = Some entry \<Longrightarrow> now w - snd entry < cacheTimeout \<Longrightarrow>
   fetchWithRetry net e retries w = (Inr (fst entry), w)"
  by (simp add: fetchWithRetry_def)

lemma fetch_not_fresh:
  "\<not> fresh e w \<Longrightarrow>
   fetchWithRetry net e retries w = retry_loop net e (map_of (cache w) e) retries 0 w"
  by (auto simp: fetchWithRetry_def fresh_def split: option.splits)

lemma retry_loop_all_fail_requests:
  "i < retries \<Longrightarrow> \<forall>j<retries - i. isl (outcome_at net e w j) \<Longrightarrow>
   requests (snd (retry_loop net e cached retries i w)) =
     requests w @ replicate (retries - i) (baseUrl @ e)"
proof (induction "retries - i" arbitrary: i w)
  case 0
  then show ?case by simp
next
  case (Suc n)
  from Suc.prems have "isl (outcome_at net e w 0)" by simp
  then obtain err where err: "fst (request net e w) = Inl err"
    by (cases "outcome_at net e w 0") (auto simp: fst_request)
  show ?case
  proof (cases "Suc i = retries")
    case True
    with err Suc.prems show ?thesis
      by (auto simp: retry_loop_last requests_request split: option.splits)
  next
    case False
    with Suc.prems have lt: "Suc i < retries" by simp
    have "requests (snd (retry_loop net e cached retries (Suc i) (backoff i (snd (request net e w))))) =
      requests (backoff i (snd (request net e w))) @ replicate (retries - Suc i) (baseUrl @ e)"
      using Suc.hyps(2) lt Suc.prems(2) by (intro Suc.hyps(1)) (auto simp: outcome_at_next)
    moreover have "retries - i = Suc (retries - Suc i)" using lt by simp
    ultimately show ?thesis using err lt
      by (simp add: retry_loop_again backoff_fields requests_request replicate_append_same)
  qed
qed

lemma retry_loop_rejects_iff:
  assumes "i < retries"
  shows "isl (fst (retry_loop net e cached retries i w)) \<longleftrightarrow>
     cached = None \<and> (\<forall>j<retries - i. isl (outcome_at net e w j))"
proof
  assume rej: "isl (fst (retry_loop net e cached retries i w))"
  have all: "\<forall>j<retries - i. isl (outcome_at net e w j)"
  proof (rule ccontr)
    assume "\<not> (\<forall>j<retries - i. isl (outcome_at net e w j))"
    then obtain j where j: "j < retries - i" "\<not> isl (outcome_at net e w j)" by blast
    define m where "m = (LEAST j. \<not> isl (outcome_at net e w j))"
    have m: "\<not> isl (outcome_at net e w m)" unfolding m_def using j(2) by (rule LeastI)
    have "m \<le> j" unfolding m_def using j(2) by (rule Least_le)
    have below: "\<forall>k<m. isl (outcome_at net e w k)"
      unfolding m_def using not_less_Least by blast
    from m obtain d where "outcome_at net e w m = Inr d"
      by (cases "outcome_at net e w m") auto
    with below have "fst (retry_loop net e cached retries i w) = Inr d"
      using \<open>m \<le> j\<close> j(1) by (intro retry_loop_first_success) auto
    with rej show False by simp
  qed
  with assms rej show "cached = None \<and> (\<forall>j<retries - i. isl (outcome_at net e w j))"
    by (auto simp: retry_loop_all_fail split: option.splits)
next
  assume "cached = None \<and> (\<forall>j<retries - i. isl (outcome_at net e w j))"
  with assms show "isl (fst (retry_loop net e cached retries i w))"
    by (simp add: retry_loop_all_fail)
qed

subsection \<open>How many attempts are made\<close>

text \<open>
  The backend answers 500 three times and would answer 200 to a fourth request; the cache is
  empty. The call makes three requests and rejects with the error of the third.
\<close>

theorem fourth_attempt_counterexample:
  "isl (outcome_at (failing_first 3) ''/cities'' empty_world 0) \<and>
   isl (outcome_at (failing_first 3) ''/cities'' empty_world 1) \<and>
   isl (outcome_at (failing_first 3) ''/cities'' empty_world 2) \<and>
   outcome_at (failing_first 3) ''/cities'' empty_world 3 = Inr (JStr ''ready'') \<and>
   fst (fetchWithRetry (failing_first 3) ''/cities'' 3 empty_world) =
     Inl (HttpError 500 ''Internal Server Error'') \<and>
   length (requests (snd (fetchWithRetry (failing_first 3) ''/cities'' 3 empty_world))) = 3"
  by code_simp

text \<open>
  Claim C1, as the code has it: \<^verbatim>\<open>retries = 3\<close> is the number of attempts. With no fresh cache
  entry, when the first two attempts fail and the third succeeds the caller receives the value
  of the third. When all three fail no fourth request is made: the call ends with the cached
  value if there is an entry, and with the error of the third attempt otherwise.
\<close>

theorem third_attempt_is_last:
  assumes "\<not> fresh e w"
  shows "(isl (outcome_at net e w 0) \<and> isl (outcome_at net e w 1) \<and> outcome_at net e w 2 = Inr v \<longrightarrow>
            fst (fetchWithRetry net e 3 w) = Inr v) \<and>
         (isl (outcome_at net e w 0) \<and> isl (outcome_at net e w 1) \<and> isl (outcome_at net e w 2) \<longrightarrow>
            fst (fetchWithRetry net e 3 w) =
              (case map_of (cache w) e of Some entry \<Rightarrow> Inr (fst entry)
               | None \<Rightarrow> outcome_at net e w 2) \<and>
            requests (snd (fetchWithRetry net e 3 w)) = requests w @ replicate 3 (baseUrl @ e))"
proof (intro conjI impI)
  assume a: "isl (outcome_at net e w 0) \<and> isl (outcome_at net e w 1) \<and> outcome_at net e w 2 = Inr v"
  moreover have "j < 2 \<Longrightarrow> j = 0 \<or> j = 1" for j :: nat by arith
  ultimately have "\<forall>j<2. isl (outcome_at net e w j)" by auto
  with a have "fst (retry_loop net e (map_of (cache w) e) 3 0 w) = Inr v"
    by (intro retry_loop_first_success[where m = 2]) auto
  with assms show "fst (fetchWithRetry net e 3 w) = Inr v" by (simp add: fetch_not_fresh)
next
  assume "isl (outcome_at net e w 0) \<and> isl (outcome_at net e w 1) \<and> isl (outcome_at net e w 2)"
  moreover have "j < 3 \<Longrightarrow> j = 0 \<or> j = 1 \<or> j = 2" for j :: nat by arith
  ultimately have all: "\<forall>j<3 - 0. isl (outcome_at net e w j)" by auto
  from retry_loop_all_fail[OF _ all, of "map_of (cache w) e"] assms
  show "fst (fetchWithRetry net e 3 w) =
      (case map_of (cache w) e of Some entry \<Rightarrow> Inr (fst entry) | None \<Rightarrow> outcome_at net e w 2)"
    by (simp add: fetch_not_fresh split: option.splits)
  from retry_loop_all_fail_requests[OF _ all, of "map_of (cache w) e"] assms
  show "requests (snd (fetchWithRetry net e 3 w)) = requests w @ replicate 3 (baseUrl @ e)"
    by (simp add: fetch_not_fresh)
qed

theorem third_attempt_is_last_witness:
  "\<not> fresh ''/cities'' empty_world \<and>
   isl (outcome_at (failing_first 2) ''/cities'' empty_world 1) \<and>
   fst (fetchWithRetry (failing_first 2) ''/cities'' 3 empty_world) = Inr (JStr ''ready'') \<and>
   isl (outcome_at (failing_first 3) ''/cities'' empty_world 2) \<and>
   fst (fetchWithRetry (failing_first 3) ''/cities'' 3 empty_world) =
     Inl (HttpError 500 ''Internal Server Error'')"
proof -
  have h: "\<not> fresh ''/cities'' empty_world" by (simp add: fresh_def empty_world_def)
  have o2: "isl (outcome_at (failing_first 2) ''/cities'' empty_world 0)"
    "isl (outcome_at (failing_first 2) ''/cities'' empty_world 1)"
    "outcome_at (failing_first 2) ''/cities'' empty_world 2 = Inr (JStr ''ready'')"
    by (simp_all add: outcome_at_def failing_first_def empty_world_def ok_def)
  have o3: "isl (outcome_at (failing_first 3) ''/cities'' empty_world 0)"
    "isl (outcome_at (failing_first 3) ''/cities'' empty_world 1)"
    "isl (outcome_at (failing_first 3) ''/cities'' empty_world 2)"
    "outcome_at (failing_first 3) ''/cities'' empty_world 2 =
       Inl (HttpError 500 ''Internal Server Error'')"
    by (simp_all add: outcome_at_def failing_first_def empty_world_def ok_def)
  show ?thesis
    using h o2 o3 third_attempt_is_last[OF h, of "failing_first 2" "JStr ''ready''"]
      third_attempt_is_last[OF h, of "failing_first 3"]
    by (simp add: empty_world_def)
qed

subsection \<open>Backoff\<close>

lemma retry_loop_many_requests:
  "\<forall>k\<le>m. isl (outcome_at net e w k) \<Longrightarrow> i + m + 1 < retries \<Longrightarrow>
   length (requests w) + m + 2 \<le> length (requests (snd (retry_loop net e cached retries i w)))"
proof (induction m arbitrary: i w)
  case 0
  then obtain err where err: "fst (request net e w) = Inl err"
    by (cases "outcome_at net e w 0") (auto simp: fst_request)
  let ?w = "backoff i (snd (request net e w))"
  from retry_loop_trace[of retries "Suc i" net e cached ?w] 0(2)
  obtain n where "0 < n"
    "requests (snd (retry_loop net e cached retries (Suc i) ?w)) = requests ?w @ replicate n (baseUrl @ e)"
    by auto
  with err 0(2) show ?case
    by (simp add: retry_loop_again backoff_fields requests_request)
next
  case (Suc m)
  from Suc.prems(1) have "isl (outcome_at net e w 0)" by simp
  then obtain err where err: "fst (request net e w) = Inl err"
    by (cases "outcome_at net e w 0") (auto simp: fst_request)
  let ?w = "backoff i (snd (request net e w))"
  have "length (requests ?w) + m + 2 \<le>
      length (requests (snd (retry_loop net e cached retries (Suc i) ?w)))"
    using Suc.prems by (intro Suc.IH) (auto simp: outcome_at_next)
  with err Suc.prems(2) show ?case
    by (simp add: retry_loop_again backoff_fields requests_request)
qed

text \<open>
  Claim C8: in a call that goes to the network, when the attempts \<open>0\<close> to \<open>i\<close> all fail and attempt
  \<open>i\<close> is not the last one (\<open>i + 1 < retries\<close>), a delay is scheduled after attempt \<open>i\<close> and it is
  \<open>2\<^sup>i * 1000\<close> milliseconds. Altogether the delays of a call that makes \<open>n\<close> requests are
  \<open>1000, 2000, \<dots>, 2\<^bsup>n-2\<^esup> * 1000\<close>, one between each two consecutive requests.
\<close>

theorem backoff_doubles:
  assumes "\<not> fresh e w" and "\<forall>k\<le>i. isl (outcome_at net e w k)" and "Suc i < retries"
  shows "length (delays w) + i < length (delays (snd (fetchWithRetry net e retries w))) \<and>
         delays (snd (fetchWithRetry net e retries w)) ! (length (delays w) + i) = 2 ^ i * 1000 \<and>
         (\<exists>n. requests (snd (fetchWithRetry net e retries w)) = requests w @ replicate n (baseUrl @ e) \<and>
              delays (snd (fetchWithRetry net e retries w)) =
                delays w @ map (\<lambda>j. 2 ^ j * 1000) [0 ..< n - 1])"
proof -
  let ?r = "retry_loop net e (map_of (cache w) e) retries 0 w"
  from retry_loop_trace[of retries 0 net e "map_of (cache w) e" w]
  obtain n where n: "requests (snd ?r) = requests w @ replicate n (baseUrl @ e)"
    "delays (snd ?r) = delays w @ map (\<lambda>j. 2 ^ j * 1000) [0 ..< n - 1]"
    by auto
  from assms(2,3) have "length (requests w) + i + 2 \<le> length (requests (snd ?r))"
    by (intro retry_loop_many_requests) auto
  with n(1) have big: "i + 2 \<le> n" by simp
  then have "i < n - 1" by simp
  with n(2) have "length (delays w) + i < length (delays (snd ?r))"
    and "delays (snd ?r) ! (length (delays w) + i) = 2 ^ i * 1000"
    by (simp_all add: nth_append)
  with n assms(1) show ?thesis by (auto simp: fetch_not_fresh)
qed

theorem backoff_doubles_witness:
  "\<not> fresh ''/health'' empty_world \<and>
   isl (outcome_at (failing_first 3) ''/health'' empty_world 0) \<and>
   isl (outcome_at (failing_first 3) ''/health'' empty_world 1) \<and>
   delays (snd (fetchWithRetry (failing_first 3) ''/health'' 3 empty_world)) ! 1 = 2000 \<and>
   delays (snd (fetchWithRetry (failing_first 3) ''/health'' 3 empty_world)) = [1000, 2000]"
proof -
  have h: "\<not> fresh ''/health'' empty_world" by (simp add: fresh_def empty_world_def)
  have o: "isl (outcome_at (failing_first 3) ''/health'' empty_world 0)"
    "isl (outcome_at (failing_first 3) ''/health'' empty_world 1)"
    by (simp_all add: outcome_at_def failing_first_def empty_world_def ok_def)
  moreover have "k \<le> 1 \<Longrightarrow> k = 0 \<or> k = 1" for k :: nat by arith
  ultimately have a: "\<forall>k\<le>1. isl (outcome_at (failing_first 3) ''/health'' empty_world k)"
    by auto
  have l: "Suc 1 < (3::nat)" by simp
  have d: "delays (snd (fetchWithRetry (failing_first 3) ''/health'' 3 empty_world)) = [1000, 2000]"
    by code_simp
  from backoff_doubles[OF h a l] h o d show ?thesis by (simp add: empty_world_def)
qed

subsection \<open>Stale entries and errors\<close>

text \<open>
  Claim C4: for every endpoint method, when all three attempts fail, the call resolves to the
  cached value if the cache had an entry for the key when the call started, whatever its age,
  and rejects with the error of the last attempt if it had none. The call rejects if and only
  if the cache has no entry for the key and all three attempts fail.
\<close>

theorem cache_or_error:
  "((\<forall>k<3. isl (outcome_at net (endpoint_of c) w k)) \<longrightarrow>
      (\<forall>entry. map_of (cache w) (endpoint_of c) = Some entry \<longrightarrow>
         fst (invoke net c w) = Inr (fst entry)) \<and>
      (map_of (cache w) (endpoint_of c) = None \<longrightarrow>
         isl (fst (invoke net c w)) \<and>
         fst (invoke net c w) = outcome_at net (endpoint_of c) w 2)) \<and>
   (isl (fst (invoke net c w)) \<longleftrightarrow>
      map_of (cache w) (endpoint_of c) = None \<and>
      (\<forall>k<3. isl (outcome_at net (endpoint_of c) w k)))"
proof -
  let ?e = "endpoint_of c"
  have iff: "isl (fst (invoke net c w)) \<longleftrightarrow>
      map_of (cache w) ?e = None \<and> (\<forall>k<3. isl (outcome_at net ?e w k))"
  proof (cases "fresh ?e w")
    case True
    then obtain entry where "map_of (cache w) ?e = Some entry" "now w - snd entry < cacheTimeout"
      by (auto simp: fresh_def split: option.splits)
    then show ?thesis by (simp add: invoke_fetch fetch_fresh)
  next
    case False
    then show ?thesis
      using retry_loop_rejects_iff[of 0 3 net ?e "map_of (cache w) ?e" w]
      by (simp add: invoke_fetch fetch_not_fresh)
  qed
  have stale: "fst (invoke net c w) = Inr (fst entry)"
    if "\<forall>k<3. isl (outcome_at net ?e w k)" "map_of (cache w) ?e = Some entry" for entry
  proof (cases "fresh ?e w")
    case True
    with that show ?thesis by (simp add: invoke_fetch fetch_fresh fresh_def)
  next
    case False
    with that retry_loop_all_fail[of 0 3 net ?e w "map_of (cache w) ?e"] show ?thesis
      by (simp add: invoke_fetch fetch_not_fresh)
  qed
  have none: "fst (invoke net c w) = outcome_at net ?e w 2"
    if "\<forall>k<3. isl (outcome_at net ?e w k)" "map_of (cache w) ?e = None"
  proof -
    from that have "\<not> fresh ?e w" by (simp add: fresh_def)
    with that retry_loop_all_fail[of 0 3 net ?e w "map_of (cache w) ?e"] show ?thesis
      by (simp add: invoke_fetch fetch_not_fresh)
  qed
  from iff stale none show ?thesis by auto
qed

theorem cache_or_error_witness:
  "isl (outcome_at (failing_first 3) (endpoint_of GetMetrics) stale_world 0) \<and>
   isl (outcome_at (failing_first 3) (endpoint_of GetMetrics) stale_world 1) \<and>
   isl (outcome_at (failing_first 3) (endpoint_of GetMetrics) stale_world 2) \<and>
   map_of (cache stale_world) (endpoint_of GetMetrics) = Some (JStr ''old'', 0) \<and>
   \<not> fresh (endpoint_of GetMetrics) stale_world \<and>
   fst (invoke (failing_first 3) GetMetrics stale_world) = Inr (JStr ''old'') \<and>
   map_of (cache empty_world) (endpoint_of GetMetrics) = None \<and>
   fst (invoke (failing_first 3) GetMetrics empty_world) =
     Inl (HttpError 500 ''Internal Server Error'')"
proof -
  have a: "\<forall>k<3. isl (outcome_at (failing_first 3) (endpoint_of GetMetrics) stale_world k)"
    "\<forall>k<3. isl (outcome_at (failing_first 3) (endpoint_of GetMetrics) empty_world k)"
    by (simp_all add: outcome_at_def failing_first_def stale_world_def empty_world_def ok_def)
  have c: "map_of (cache stale_world) (endpoint_of GetMetrics) = Some (JStr ''old'', 0)"
    "map_of (cache empty_world) (endpoint_of GetMetrics) = None"
    "\<not> fresh (endpoint_of GetMetrics) stale_world"
    by (simp_all add: stale_world_def empty_world_def fresh_def cacheTimeout_def)
  have o: "outcome_at (failing_first 3) (endpoint_of GetMetrics) empty_world 2 =
      Inl (HttpError 500 ''Internal Server Error'')"
    by (simp add: outcome_at_def failing_first_def empty_world_def ok_def)
  from cache_or_error[of "failing_first 3" GetMetrics stale_world]
    cache_or_error[of "failing_first 3" GetMetrics empty_world] a c o
  show ?thesis by simp
qed

subsection \<open>Fresh entries\<close>

lemma retry_loop_resolved_cached:
  "fst (retry_loop net e (map_of (cache w) e) retries i w) = Inr v \<Longrightarrow> i < retries \<Longrightarrow>
   \<exists>ts. map_of (cache (snd (retry_loop net e (map_of (cache w) e) retries i w))) e = Some (v, ts)"
proof (induction "retries - i" arbitrary: i w)
  case 0
  then show ?case by simp
next
  case (Suc n)
  show ?case
  proof (cases "fst (request net e w)")
    case (Inr d)
    with Suc.prems show ?thesis
      by (simp add: retry_loop_success update_conv')
  next
    case (Inl err)
    show ?thesis
    proof (cases "Suc i = retries")
      case True
      with Inl Suc.prems show ?thesis
        by (auto simp: retry_loop_last cache_request split: option.splits)
    next
      case False
      with Suc.prems have lt: "Suc i < retries" by simp
      let ?w = "backoff i (snd (request net e w))"
      have c: "cache ?w = cache w" by (simp add: backoff_fields cache_request)
      have eq: "retry_loop net e (map_of (cache w) e) retries i w =
          retry_loop net e (map_of (cache ?w) e) retries (Suc i) ?w"
        using Inl lt by (simp add: retry_loop_again c)
      from Suc.hyps(2) have "n = retries - Suc i" by simp
      from Suc.hyps(1)[OF this, of ?w] Suc.prems(1) lt show ?thesis
        by (simp add: eq)
    qed
  qed
qed

lemma fetch_resolved_cached:
  assumes "fst (fetchWithRetry net e retries w) = Inr v" and "0 < retries"
  shows "\<exists>ts. map_of (cache (snd (fetchWithRetry net e retries w))) e = Some (v, ts)"
proof (cases "fresh e w")
  case True
  then obtain entry where en: "map_of (cache w) e = Some entry" "now w - snd entry < cacheTimeout"
    by (auto simp: fresh_def split: option.splits)
  with assms have "fst entry = v" by (simp add: fetch_fresh)
  with en show ?thesis by (cases entry) (simp add: fetch_fresh)
next
  case False
  with assms retry_loop_resolved_cached[of net e w retries 0 v] show ?thesis
    by (simp add: fetch_not_fresh)
qed

text \<open>
  Two calls of \<^verbatim>\<open>getPredictions(50)\<close>, the second right after the first has settled, on an
  empty cache and a backend that fails the first request: both resolve to the same value and
  the entry is fresh when the second starts, yet two requests have been made, both by the
  first call.
\<close>

theorem two_calls_two_requests_counterexample:
  "fst (getPredictions (failing_first 1) 50 None empty_world) = Inr (JStr ''ready'') \<and>
   fresh (predictions_endpoint 50 None) retried_world \<and>
   now retried_world = 1040 \<and>
   fst (getPredictions (failing_first 1) 50 None retried_world) = Inr (JStr ''ready'') \<and>
   requests (snd (getPredictions (failing_first 1) 50 None retried_world)) =
     [''http://localhost:8002/predictions?limit=50'',
      ''http://localhost:8002/predictions?limit=50'']"
  by code_simp

text \<open>
  Claim C3, as the code has it: for every endpoint method and arguments, when the cache has an
  entry for the key that is younger than the timeout when the call starts, the call resolves
  to the cached value and leaves the world as it is: no request is made. For two calls made
  one after the other, the second starting when the first has settled: when the first
  resolves to \<open>v\<close> and the entry is fresh at the time \<open>t\<close> at which the second starts, the second
  resolves to \<open>v\<close> too and makes no request. The first call makes no request when it found a
  fresh entry, and exactly one when it went to the network and its first attempt succeeded;
  in these two cases the two calls together make at most one request.
\<close>

theorem fresh_entry_no_request:
  "(map_of (cache w) (endpoint_of c) = Some (d, ts) \<and> now w - ts < cacheTimeout \<longrightarrow>
      invoke net c w = (Inr d, w)) \<and>
   (fst (invoke net c w) = Inr v \<and> fresh (endpoint_of c) ((snd (invoke net c w))\<lparr>now := t\<rparr>) \<longrightarrow>
      invoke net c ((snd (invoke net c w))\<lparr>now := t\<rparr>) = (Inr v, (snd (invoke net c w))\<lparr>now := t\<rparr>)) \<and>
   (fresh (endpoint_of c) w \<longrightarrow> requests (snd (invoke net c w)) = requests w) \<and>
   (\<not> fresh (endpoint_of c) w \<and> outcome_at net (endpoint_of c) w 0 = Inr v \<longrightarrow>
      fst (invoke net c w) = Inr v \<and>
      requests (snd (invoke net c w)) = requests w @ [baseUrl @ endpoint_of c])"
proof (intro conjI impI)
  assume "map_of (cache w) (endpoint_of c) = Some (d, ts) \<and> now w - ts < cacheTimeout"
  then show "invoke net c w = (Inr d, w)"
    using fetch_fresh[of w "endpoint_of c" "(d, ts)"] by (simp add: invoke_fetch)
next
  let ?w = "snd (invoke net c w)"
  assume a: "fst (invoke net c w) = Inr v \<and> fresh (endpoint_of c) (?w\<lparr>now := t\<rparr>)"
  then obtain ts where ts: "map_of (cache ?w) (endpoint_of c) = Some (v, ts)"
    using fetch_resolved_cached[of net "endpoint_of c" 3 w v] by (auto simp: invoke_fetch)
  with a have "t - ts < cacheTimeout" by (simp add: fresh_def)
  with ts show "invoke net c (?w\<lparr>now := t\<rparr>) = (Inr v, ?w\<lparr>now := t\<rparr>)"
    using fetch_fresh[of "?w\<lparr>now := t\<rparr>" "endpoint_of c" "(v, ts)"] by (simp add: invoke_fetch)
next
  assume "fresh (endpoint_of c) w"
  then show "requests (snd (invoke net c w)) = requests w"
    by (auto simp: invoke_fetch fetch_fresh fresh_def split: option.splits)
next
  assume a: "\<not> fresh (endpoint_of c) w \<and> outcome_at net (endpoint_of c) w 0 = Inr v"
  then show "fst (invoke net c w) = Inr v"
    by (simp add: invoke_fetch fetch_not_fresh retry_loop_success fst_request)
  from a show "requests (snd (invoke net c w)) = requests w @ [baseUrl @ endpoint_of c]"
    by (simp add: invoke_fetch fetch_not_fresh retry_loop_success fst_request requests_request)
qed

theorem fresh_entry_no_request_witness:
  "fst (invoke (failing_first 0) (GetPredictions 50 None) empty_world) = Inr (JStr ''ready'') \<and>
   requests warm_world = [''http://localhost:8002/predictions?limit=50''] \<and>
   map_of (cache warm_world) (endpoint_of (GetPredictions 50 None)) = Some (JStr ''ready'', 20) \<and>
   fresh (endpoint_of (GetPredictions 50 None)) (warm_world\<lparr>now := 1000\<rparr>) \<and>
   invoke (failing_first 0) (GetPredictions 50 None) (warm_world\<lparr>now := 1000\<rparr>) =
     (Inr (JStr ''ready''), warm_world\<lparr>now := 1000\<rparr>)"
proof -
  have w: "warm_world = \<lparr>cache = [(''/predictions?limit=50'', JStr ''ready'', 20)], now = 20,
      requests = [''http://localhost:8002/predictions?limit=50''], delays = []\<rparr>"
    by code_simp
  have e: "predictions_endpoint 50 None = ''/predictions?limit=50''" by code_simp
  have r: "fst (invoke (failing_first 0) (GetPredictions 50 None) empty_world) = Inr (JStr ''ready'')"
    by code_simp
  have s: "snd (invoke (failing_first 0) (GetPredictions 50 None) empty_world) = warm_world"
    by (simp add: warm_world_def)
  have f: "fresh (endpoint_of (GetPredictions 50 None)) (warm_world\<lparr>now := 1000\<rparr>)"
    by (simp add: w e fresh_def cacheTimeout_def)
  from fresh_entry_no_request[of warm_world "GetPredictions 50 None" "JStr ''ready''" 20
      "failing_first 0" "JStr ''ready''" 1000]
    fresh_entry_no_request[of empty_world "GetPredictions 50 None" _ _
      "failing_first 0" "JStr ''ready''" 1000] r s f
  show ?thesis by (simp add: w e)
qed

subsection \<open>Calls for different endpoints do not disturb each other\<close>

lemma request_local:
  assumes "now w = now w'"
    and "count_list (requests w) (baseUrl @ e) = count_list (requests w') (baseUrl @ e)"
  shows "fst (request net e w) = fst (request net e w')"
    and "now (snd (request net e w)) = now (snd (request net e w'))"
    and "count_list (requests (snd (request net e w))) (baseUrl @ e) =
         count_list (requests (snd (request net e w'))) (baseUrl @ e)"
  using assms by (simp_all add: request_def Let_def)

lemma retry_loop_local:
  assumes "now w = now w'"
    and "count_list (requests w) (baseUrl @ e) = count_list (requests w') (baseUrl @ e)"
  shows "fst (retry_loop net e cached retries i w) = fst (retry_loop net e cached retries i w') \<and>
         now (snd (retry_loop net e cached retries i w)) =
         now (snd (retry_loop net e cached retries i w'))"
  using assms
proof (induction "retries - i" arbitrary: i w w')
  case 0
  then show ?case by (simp add: retry_loop_exit)
next
  case (Suc n)
  then have lt: "i < retries" by simp
  note loc = request_local[OF Suc.prems, of net]
  show ?case
  proof (cases "fst (request net e w)")
    case (Inr d)
    with loc(1) have "fst (request net e w') = Inr d" by simp
    with Inr lt loc(2) show ?thesis by (simp add: retry_loop_success)
  next
    case (Inl err)
    with loc(1) have Inl': "fst (request net e w') = Inl err" by simp
    show ?thesis
    proof (cases "Suc i = retries")
      case True
      with Inl Inl' lt loc(2) show ?thesis
        by (simp add: retry_loop_last split: option.splits)
    next
      case False
      with lt have lt': "Suc i < retries" by simp
      from Suc.hyps(2) have n: "n = retries - Suc i" by simp
      have "fst (retry_loop net e cached retries (Suc i) (backoff i (snd (request net e w)))) =
            fst (retry_loop net e cached retries (Suc i) (backoff i (snd (request net e w')))) \<and>
            now (snd (retry_loop net e cached retries (Suc i) (backoff i (snd (request net e w))))) =
            now (snd (retry_loop net e cached retries (Suc i) (backoff i (snd (request net e w')))))"
        using loc by (intro Suc.hyps(1)[OF n]) (simp_all add: backoff_def)
      with Inl Inl' lt' show ?thesis by (simp add: retry_loop_again)
    qed
  qed
qed

lemma fetch_local:
  assumes "view e w = view e w'"
  shows "fst (fetchWithRetry net e retries w) = fst (fetchWithRetry net e retries w')"
    and "now (snd (fetchWithRetry net e retries w)) = now (snd (fetchWithRetry net e retries w'))"
proof -
  from assms have v: "map_of (cache w) e = map_of (cache w') e" "now w = now w'"
    "count_list (requests w) (baseUrl @ e) = count_list (requests w') (baseUrl @ e)"
    by (simp_all add: view_def)
  have "fst (retry_loop net e cached retries 0 w) = fst (retry_loop net e cached retries 0 w') \<and>
      now (snd (retry_loop net e cached retries 0 w)) =
      now (snd (retry_loop net e cached retries 0 w'))" for cached
    using v(2,3) by (rule retry_loop_local)
  with v
  show "fst (fetchWithRetry net e retries w) = fst (fetchWithRetry net e retries w')"
    and "now (snd (fetchWithRetry net e retries w)) = now (snd (fetchWithRetry net e retries w'))"
    by (simp_all add: fetchWithRetry_def Let_def split: option.splits)
qed

lemma retry_loop_cache:
  "cache (snd (retry_loop net e cached retries i w)) = cache w \<or>
   (\<exists>entry. cache (snd (retry_loop net e cached retries i w)) = AList.update e entry (cache w))"
proof (induction "retries - i" arbitrary: i w)
  case 0
  then show ?case by (simp add: retry_loop_exit)
next
  case (Suc n)
  then have lt: "i < retries" by simp
  show ?case
  proof (cases "fst (request net e w)")
    case (Inr d)
    with lt show ?thesis by (auto simp: retry_loop_success cache_request)
  next
    case (Inl err)
    show ?thesis
    proof (cases "Suc i = retries")
      case True
      with Inl lt show ?thesis
        by (simp add: retry_loop_last cache_request split: option.splits)
    next
      case False
      with lt have lt': "Suc i < retries" by simp
      from Suc.hyps(2) have n: "n = retries - Suc i" by simp
      from Suc.hyps(1)[OF n, of "backoff i (snd (request net e w))"] Inl lt'
      show ?thesis by (simp add: retry_loop_again backoff_fields cache_request)
    qed
  qed
qed

lemma retry_loop_frame:
  assumes "e' \<noteq> e"
  shows "map_of (cache (snd (retry_loop net e' cached retries i w))) e = map_of (cache w) e"
    and "count_list (requests (snd (retry_loop net e' cached retries i w))) (baseUrl @ e) =
         count_list (requests w) (baseUrl @ e)"
proof -
  from retry_loop_cache[of net e' cached retries i w] assms
  show "map_of (cache (snd (retry_loop net e' cached retries i w))) e = map_of (cache w) e"
    by (auto simp: update_conv')
  from retry_loop_trace[of retries i net e' cached w] obtain n where
    "requests (snd (retry_loop net e' cached retries i w)) = requests w @ replicate n (baseUrl @ e')"
    by blast
  moreover have "count_list (replicate n (baseUrl @ e')) (baseUrl @ e) = 0"
    using assms by (induction n) simp_all
  ultimately show "count_list (requests (snd (retry_loop net e' cached retries i w))) (baseUrl @ e) =
      count_list (requests w) (baseUrl @ e)" by simp
qed

lemma fetch_frame:
  assumes "e' \<noteq> e"
  shows "view e ((snd (fetchWithRetry net e' retries w))\<lparr>now := t\<rparr>) = view e (w\<lparr>now := t\<rparr>)"
  using retry_loop_frame[OF assms, of net _ retries 0 w]
  by (simp add: view_def fetchWithRetry_def Let_def split: option.splits)

lemma view_now: "view e (w\<lparr>now := now w\<rparr>) = view e w"
  by (simp add: view_def)

lemma batch_endpoints:
  "predictions_endpoint 100 None = ''/predictions?limit=100''"
  "historical_endpoint 24 = ''/analytics/historical?hours=24''"
  by code_simp+

subsection \<open>Batch load\<close>

lemma value_or_settle: "value_or (settle r) d = (case r of Inl err \<Rightarrow> d | Inr v \<Rightarrow> v)"
  by (cases r) simp_all

text \<open>
  Claim C5: \<^verbatim>\<open>loadAllData\<close> always resolves, whatever the six calls do. Each field of the
  object is the value the endpoint's call resolves to when run on the world of the start (the
  other five calls do not touch its cache key or its URL), and the default when that call
  rejects: the empty array for cities, predictions, historical and realtime; for metrics the
  object whose five counts are 0 and whose \<^verbatim>\<open>lastUpdated\<close> is the time of settling as text;
  \<^verbatim>\<open>{status: 'offline'}\<close> for health.
\<close>

theorem batch_never_rejects:
  "\<exists>d. fst (loadAllData net toISOString w) = Inr d \<and>
     cities d = (case fst (getCities net w) of Inl err \<Rightarrow> JArr [] | Inr v \<Rightarrow> v) \<and>
     predictions d = (case fst (getPredictions net 100 None w) of Inl err \<Rightarrow> JArr [] | Inr v \<Rightarrow> v) \<and>
     metrics d =
       (case fst (getMetrics net w) of
          Inl err \<Rightarrow> default_metrics (toISOString (now (snd (loadAllData net toISOString w))))
        | Inr v \<Rightarrow> v) \<and>
     historical d = (case fst (getHistoricalData net 24 w) of Inl err \<Rightarrow> JArr [] | Inr v \<Rightarrow> v) \<and>
     realtime d = (case fst (getRealtimeTraffic net w) of Inl err \<Rightarrow> JArr [] | Inr v \<Rightarrow> v) \<and>
     health d =
       (case fst (getHealthStatus net w) of
          Inl err \<Rightarrow> JObj [(''status'', JStr ''offline'')]
        | Inr v \<Rightarrow> v)"
proof -
  define u1 where "u1 = (snd (getCities net w))\<lparr>now := now w\<rparr>"
  define u2 where "u2 = (snd (getPredictions net 100 None u1))\<lparr>now := now w\<rparr>"
  define u3 where "u3 = (snd (getMetrics net u2))\<lparr>now := now w\<rparr>"
  define u4 where "u4 = (snd (getHistoricalData net 24 u3))\<lparr>now := now w\<rparr>"
  define u5 where "u5 = (snd (getRealtimeTraffic net u4))\<lparr>now := now w\<rparr>"
  note us = u1_def u2_def u3_def u4_def u5_def
  have t: "u1\<lparr>now := now w\<rparr> = u1" "u2\<lparr>now := now w\<rparr> = u2" "u3\<lparr>now := now w\<rparr> = u3"
    "u4\<lparr>now := now w\<rparr> = u4" "u5\<lparr>now := now w\<rparr> = u5"
    by (simp_all add: us)
  have v1: "view e u1 = view e w" if "''/cities'' \<noteq> e" for e
    using fetch_frame[OF that, where net = net and retries = 3 and w = w and t = "now w"]
    by (simp add: u1_def getCities_def view_now)
  have v2: "view e u2 = view e u1" if "''/predictions?limit=100'' \<noteq> e" for e
    using fetch_frame[OF that, where net = net and retries = 3 and w = u1 and t = "now w"]
    by (simp add: u2_def getPredictions_def batch_endpoints t)
  have v3: "view e u3 = view e u2" if "''/analytics/metrics'' \<noteq> e" for e
    using fetch_frame[OF that, where net = net and retries = 3 and w = u2 and t = "now w"]
    by (simp add: u3_def getMetrics_def t)
  have v4: "view e u4 = view e u3" if "''/analytics/historical?hours=24'' \<noteq> e" for e
    using fetch_frame[OF that, where net = net and retries = 3 and w = u3 and t = "now w"]
    by (simp add: u4_def getHistoricalData_def batch_endpoints t)
  have v5: "view e u5 = view e u4" if "''/traffic/realtime'' \<noteq> e" for e
    using fetch_frame[OF that, where net = net and retries = 3 and w = u4 and t = "now w"]
    by (simp add: u5_def getRealtimeTraffic_def t)
  have r2: "fst (getPredictions net 100 None u1) = fst (getPredictions net 100 None w)"
    unfolding getPredictions_def by (rule fetch_local(1)) (simp add: v1 batch_endpoints)
  have r3: "fst (getMetrics net u2) = fst (getMetrics net w)"
    unfolding getMetrics_def by (rule fetch_local(1)) (simp add: v1 v2)
  have r4: "fst (getHistoricalData net 24 u3) = fst (getHistoricalData net 24 w)"
    unfolding getHistoricalData_def by (rule fetch_local(1)) (simp add: v1 v2 v3 batch_endpoints)
  have r5: "fst (getRealtimeTraffic net u4) = fst (getRealtimeTraffic net w)"
    unfolding getRealtimeTraffic_def by (rule fetch_local(1)) (simp add: v1 v2 v3 v4)
  have r6: "fst (getHealthStatus net u5) = fst (getHealthStatus net w)"
    unfolding getHealthStatus_def by (rule fetch_local(1)) (simp add: v1 v2 v3 v4 v5)
  show ?thesis
    unfolding loadAllData_def Let_def
    unfolding u1_def[symmetric]
    unfolding u2_def[symmetric]
    unfolding u3_def[symmetric]
    unfolding u4_def[symmetric]
    unfolding u5_def[symmetric]
    by (simp add: value_or_settle r2 r3 r4 r5 r6 cong: sum.case_cong)
qed

theorem batch_never_rejects_witness:
  "fst (loadAllData unreachable (\<lambda>t. ''1970-01-01T00:00:07.000Z'') empty_world) =
     Inr \<lparr>cities = JArr [], predictions = JArr [],
          metrics = JObj [(''totalPredictions'', JNum 0), (''accuracy'', JNum 0),
                          (''avgResponseTime'', JNum 0), (''activeSegments'', JNum 0),
                          (''citiesMonitored'', JNum 0),
                          (''lastUpdated'', JStr ''1970-01-01T00:00:07.000Z'')],
          historical = JArr [], realtime = JArr [],
          health = JObj [(''status'', JStr ''offline'')]\<rparr>"
proof -
  have f: "fst (getCities unreachable empty_world) = Inl NetworkError"
    "fst (getPredictions unreachable 100 None empty_world) = Inl NetworkError"
    "fst (getMetrics unreachable empty_world) = Inl NetworkError"
    "fst (getHistoricalData unreachable 24 empty_world) = Inl NetworkError"
    "fst (getRealtimeTraffic unreachable empty_world) = Inl NetworkError"
    "fst (getHealthStatus unreachable empty_world) = Inl NetworkError"
    by code_simp+
  from batch_never_rejects[of unreachable "\<lambda>t. ''1970-01-01T00:00:07.000Z''" empty_world]
  obtain d where d: "fst (loadAllData unreachable (\<lambda>t. ''1970-01-01T00:00:07.000Z'') empty_world) = Inr d"
    "cities d = JArr []" "predictions d = JArr []"
    "metrics d = default_metrics ''1970-01-01T00:00:07.000Z''"
    "historical d = JArr []" "realtime d = JArr []"
    "health d = JObj [(''status'', JStr ''offline'')]"
    unfolding f by auto
  then show ?thesis by (cases d) (simp add: default_metrics_def)
qed

section \<open>Properties of the real-time manager\<close>

subsection \<open>What the operations do to the maps\<close>

lemma set_add_props:
  "set_add cb cbs \<noteq> []" "cb \<in> set (set_add cb cbs)"
  "distinct cbs \<Longrightarrow> distinct (set_add cb cbs)"
  "set (set_add cb cbs) = insert cb (set cbs)"
  by (auto simp: set_add_def)

lemma subscribe_subscribers:
  "map_of (subscribers (subscribe key cb ms s)) =
     (map_of (subscribers s))
       (key \<mapsto> set_add cb (case map_of (subscribers s) key of None \<Rightarrow> [] | Some cbs \<Rightarrow> cbs))"
  by (auto simp: subscribe_def Let_def update_conv' split: option.splits)

lemma subscribe_new:
  "map_of (intervals s) key = None \<Longrightarrow>
   timers (subscribe key cb ms s) = timers s @ [(next_timer s, key, ms)] \<and>
   next_timer (subscribe key cb ms s) = Suc (next_timer s) \<and>
   map_of (intervals (subscribe key cb ms s)) = (map_of (intervals s))(key \<mapsto> next_timer s)"
  by (auto simp: subscribe_def Let_def update_conv' split: option.splits)

lemma subscribe_running:
  "map_of (intervals s) key = Some h \<Longrightarrow>
   timers (subscribe key cb ms s) = timers s \<and>
   next_timer (subscribe key cb ms s) = next_timer s \<and>
   intervals (subscribe key cb ms s) = intervals s"
  by (auto simp: subscribe_def Let_def split: option.splits)

lemma hub_wfD:
  assumes "hub_wf s"
  shows "distinct (map fst (timers s))"
    and "(map_of (intervals s) k = None) = (map_of (subscribers s) k = None)"
    and "map_of (subscribers s) k = Some cbs \<Longrightarrow> cbs \<noteq> [] \<and> distinct cbs"
    and "(h, k, ms) \<in> set (timers s) \<Longrightarrow> h < next_timer s \<and> map_of (intervals s) k = Some h"
    and "map_of (intervals s) k = Some h \<Longrightarrow> \<exists>ms. (h, k, ms) \<in> set (timers s)"
  using assms unfolding hub_wf_def by blast+

lemma hub_wfI:
  assumes "distinct (map fst (timers s))"
    and "\<And>k. (map_of (intervals s) k = None) = (map_of (subscribers s) k = None)"
    and "\<And>k cbs. map_of (subscribers s) k = Some cbs \<Longrightarrow> cbs \<noteq> [] \<and> distinct cbs"
    and "\<And>h k ms. (h, k, ms) \<in> set (timers s) \<Longrightarrow>
           h < next_timer s \<and> map_of (intervals s) k = Some h"
    and "\<And>k h. map_of (intervals s) k = Some h \<Longrightarrow> \<exists>ms. (h, k, ms) \<in> set (timers s)"
  shows "hub_wf s"
  using assms unfolding hub_wf_def by blast

lemma subscribe_wf:
  assumes "hub_wf s"
  shows "hub_wf (subscribe key cb ms s)"
proof (cases "map_of (intervals s) key")
  case None
  note new = subscribe_new[OF None, of cb ms]
  note wf = hub_wfD[OF assms]
  have fresh_handle: "next_timer s \<notin> fst ` set (timers s)"
    using wf(4) by force
  show ?thesis
  proof (rule hub_wfI)
    show "distinct (map fst (timers (subscribe key cb ms s)))"
      using wf(1) fresh_handle by (simp add: new)
  next
    fix k
    show "(map_of (intervals (subscribe key cb ms s)) k = None) =
        (map_of (subscribers (subscribe key cb ms s)) k = None)"
      using wf(2)[of k] by (simp add: new subscribe_subscribers)
  next
    fix k cbs
    assume "map_of (subscribers (subscribe key cb ms s)) k = Some cbs"
    then show "cbs \<noteq> [] \<and> distinct cbs"
      using wf(3)[of k] wf(3)[of key]
      by (auto simp: subscribe_subscribers set_add_props split: if_splits option.splits)
  next
    fix h k m
    assume "(h, k, m) \<in> set (timers (subscribe key cb ms s))"
    then consider "(h, k, m) \<in> set (timers s)" | "h = next_timer s" "k = key"
      by (auto simp: new)
    then show "h < next_timer (subscribe key cb ms s) \<and>
        map_of (intervals (subscribe key cb ms s)) k = Some h"
    proof cases
      case 1
      from wf(4)[OF 1] None have "k \<noteq> key" by auto
      with wf(4)[OF 1] show ?thesis by (simp add: new)
    next
      case 2
      then show ?thesis by (simp add: new)
    qed
  next
    fix k h
    assume "map_of (intervals (subscribe key cb ms s)) k = Some h"
    then show "\<exists>m. (h, k, m) \<in> set (timers (subscribe key cb ms s))"
      using wf(5)[of k h] by (auto simp: new split: if_splits)
  qed
next
  case (Some h)
  note run = subscribe_running[OF Some, of cb ms]
  note wf = hub_wfD[OF assms]
  show ?thesis
  proof (rule hub_wfI)
    show "distinct (map fst (timers (subscribe key cb ms s)))"
      using wf(1) by (simp add: run)
  next
    fix k
    show "(map_of (intervals (subscribe key cb ms s)) k = None) =
        (map_of (subscribers (subscribe key cb ms s)) k = None)"
      using wf(2)[of k] wf(2)[of key] Some by (auto simp: run subscribe_subscribers)
  next
    fix k cbs
    assume "map_of (subscribers (subscribe key cb ms s)) k = Some cbs"
    then show "cbs \<noteq> [] \<and> distinct cbs"
      using wf(3)[of k] wf(3)[of key]
      by (auto simp: subscribe_subscribers set_add_props split: if_splits option.splits)
  next
    fix h k m
    assume "(h, k, m) \<in> set (timers (subscribe key cb ms s))"
    then show "h < next_timer (subscribe key cb ms s) \<and>
        map_of (intervals (subscribe key cb ms s)) k = Some h"
      using wf(4)[of h k m] by (simp add: run)
  next
    fix k h
    assume "map_of (intervals (subscribe key cb ms s)) k = Some h"
    then show "\<exists>m. (h, k, m) \<in> set (timers (subscribe key cb ms s))"
      using wf(5)[of k h] by (simp add: run)
  qed
qed

lemma unsubscribe_absent:
  "map_of (subscribers s) key = None \<Longrightarrow> unsubscribe key cb s = s"
  by (simp add: unsubscribe_def)

lemma unsubscribe_last:
  "map_of (subscribers s) key = Some cbs \<Longrightarrow> set_delete cb cbs = [] \<Longrightarrow>
   map_of (intervals s) key = Some h \<Longrightarrow>
   unsubscribe key cb s =
     s\<lparr>timers := clearInterval h (timers s), intervals := AList.delete key (intervals s),
       subscribers := AList.delete key (subscribers s)\<rparr>"
  by (simp add: unsubscribe_def)

lemma unsubscribe_other:
  "map_of (subscribers s) key = Some cbs \<Longrightarrow> set_delete cb cbs \<noteq> [] \<Longrightarrow>
   unsubscribe key cb s = s\<lparr>subscribers := AList.update key (set_delete cb cbs) (subscribers s)\<rparr>"
  by (simp add: unsubscribe_def)

lemma set_clearInterval: "set (clearInterval h ts) = {t \<in> set ts. fst t \<noteq> h}"
  by (auto simp: clearInterval_def AList.delete_eq)

lemma distinct_clearInterval:
  "distinct (map fst ts) \<Longrightarrow> distinct (map fst (clearInterval h ts))"
  by (simp add: clearInterval_def distinct_delete)

lemma unsubscribe_wf:
  assumes "hub_wf s"
  shows "hub_wf (unsubscribe key cb s)"
proof (cases "map_of (subscribers s) key")
  case None
  with assms show ?thesis by (simp add: unsubscribe_absent)
next
  case (Some cbs)
  note wf = hub_wfD[OF assms]
  show ?thesis
  proof (cases "set_delete cb cbs = []")
    case True
    from wf(2)[of key] Some obtain h where h: "map_of (intervals s) key = Some h"
      by (cases "map_of (intervals s) key") auto
    note eq = unsubscribe_last[OF Some True h]
    have one: "k = key" if "(h, k, ms) \<in> set (timers s)" for k ms
    proof -
      from wf(5)[OF h] obtain ms' where "(h, key, ms') \<in> set (timers s)" by blast
      with wf(1) that show ?thesis by (auto dest: eq_key_imp_eq_value)
    qed
    show ?thesis
    proof (rule hub_wfI)
      show "distinct (map fst (timers (unsubscribe key cb s)))"
        using wf(1) by (simp add: eq distinct_clearInterval)
    next
      fix k
      show "(map_of (intervals (unsubscribe key cb s)) k = None) =
          (map_of (subscribers (unsubscribe key cb s)) k = None)"
        using wf(2)[of k] by (simp add: eq delete_conv')
    next
      fix k cbs'
      assume "map_of (subscribers (unsubscribe key cb s)) k = Some cbs'"
      then show "cbs' \<noteq> [] \<and> distinct cbs'"
        using wf(3)[of k cbs'] by (simp add: eq delete_conv' split: if_splits)
    next
      fix h' k m
      assume "(h', k, m) \<in> set (timers (unsubscribe key cb s))"
      then have in_s: "(h', k, m) \<in> set (timers s)" and ne: "h' \<noteq> h"
        by (simp_all add: eq set_clearInterval)
      from wf(4)[OF in_s] h ne have "k \<noteq> key" by auto
      with wf(4)[OF in_s] show "h' < next_timer (unsubscribe key cb s) \<and>
          map_of (intervals (unsubscribe key cb s)) k = Some h'"
        by (simp add: eq delete_conv')
    next
      fix k h'
      assume "map_of (intervals (unsubscribe key cb s)) k = Some h'"
      then have k: "k \<noteq> key" "map_of (intervals s) k = Some h'"
        by (simp_all add: eq delete_conv' split: if_splits)
      from wf(5)[OF k(2)] obtain m where m: "(h', k, m) \<in> set (timers s)" by blast
      with one[of k m] k(1) have "h' \<noteq> h" by auto
      with m show "\<exists>m. (h', k, m) \<in> set (timers (unsubscribe key cb s))"
        by (auto simp: eq set_clearInterval)
    qed
  next
    case False
    note eq = unsubscribe_other[OF Some False]
    show ?thesis
    proof (rule hub_wfI)
      show "distinct (map fst (timers (unsubscribe key cb s)))"
        using wf(1) by (simp add: eq)
    next
      fix k
      show "(map_of (intervals (unsubscribe key cb s)) k = None) =
          (map_of (subscribers (unsubscribe key cb s)) k = None)"
        using wf(2)[of k] Some by (simp add: eq update_conv')
    next
      fix k cbs'
      assume "map_of (subscribers (unsubscribe key cb s)) k = Some cbs'"
      then show "cbs' \<noteq> [] \<and> distinct cbs'"
        using wf(3)[of k cbs'] wf(3)[OF Some] False
        by (auto simp: eq update_conv' set_delete_def distinct_removeAll split: if_splits)
    next
      fix h k m
      assume "(h, k, m) \<in> set (timers (unsubscribe key cb s))"
      then show "h < next_timer (unsubscribe key cb s) \<and>
          map_of (intervals (unsubscribe key cb s)) k = Some h"
        using wf(4)[of h k m] by (simp add: eq)
    next
      fix k h
      assume "map_of (intervals (unsubscribe key cb s)) k = Some h"
      then show "\<exists>m. (h, k, m) \<in> set (timers (unsubscribe key cb s))"
        using wf(5)[of k h] by (simp add: eq)
    qed
  qed
qed

lemma set_fold_clearInterval:
  "set (fold clearInterval hs ts) = {t \<in> set ts. fst t \<notin> set hs}"
proof (induction hs arbitrary: ts)
  case Nil
  show ?case by simp
next
  case (Cons h hs)
  have "set (fold clearInterval (h # hs) ts) = {t \<in> set (clearInterval h ts). fst t \<notin> set hs}"
    by (simp add: Cons.IH)
  also have "\<dots> = {t \<in> set ts. fst t \<notin> set (h # hs)}"
    unfolding set_clearInterval by auto
  finally show ?case .
qed

lemma stopAll_fields:
  "intervals (stopAll s) = []" "subscribers (stopAll s) = []"
  "next_timer (stopAll s) = next_timer s"
  "timers (stopAll s) = fold clearInterval (map snd (intervals s)) (timers s)"
  by (simp_all add: stopAll_def)

lemma stopAll_timers:
  assumes "hub_wf s"
  shows "timers (stopAll s) = []"
proof -
  have "fst t \<in> set (map snd (intervals s))" if "t \<in> set (timers s)" for t
  proof -
    obtain h k ms where t: "t = (h, k, ms)" by (cases t)
    with that have "(h, k, ms) \<in> set (timers s)" by simp
    from hub_wfD(4)[OF assms this] have "map_of (intervals s) k = Some h" by simp
    then have "(k, h) \<in> set (intervals s)" by (rule map_of_SomeD)
    then have "snd (k, h) \<in> snd ` set (intervals s)" by (rule imageI)
    then show ?thesis by (simp add: t)
  qed
  then have "set (fold clearInterval (map snd (intervals s)) (timers s)) = {}"
    unfolding set_fold_clearInterval by blast
  then show ?thesis by (simp add: stopAll_fields)
qed

lemma stopAll_wf:
  assumes "hub_wf s"
  shows "hub_wf (stopAll s)"
  by (rule hub_wfI) (simp_all add: stopAll_timers[OF assms] stopAll_fields(1,2,3))

lemma new_hub_wf: "hub_wf new_hub"
  by (simp add: hub_wf_def new_hub_def)

lemma apply_op_wf: "hub_wf s \<Longrightarrow> hub_wf (apply_op op s)"
  by (cases op) (simp_all add: subscribe_wf unsubscribe_wf stopAll_wf)

lemma run_ops_wf: "hub_wf s \<Longrightarrow> hub_wf (run_ops ops s)"
  unfolding run_ops_def by (induction ops arbitrary: s) (simp_all add: apply_op_wf)

lemma reachable_wf: "hub_wf (run_ops ops new_hub)"
  by (rule run_ops_wf) (rule new_hub_wf)

lemma run_ops_simps:
  "run_ops [] s = s" "run_ops (op # ops) s = run_ops ops (apply_op op s)"
  "run_ops (ops @ ops') s = run_ops ops' (run_ops ops s)"
  by (simp_all add: run_ops_def)

subsection \<open>One timer per key\<close>

lemma subscriptions_running:
  "map_of (intervals s) key = Some h \<Longrightarrow>
   timers (run_ops (subscriptions key ps) s) = timers s \<and>
   intervals (run_ops (subscriptions key ps) s) = intervals s \<and>
   next_timer (run_ops (subscriptions key ps) s) = next_timer s"
proof (induction ps arbitrary: s)
  case Nil
  show ?case by (simp add: subscriptions_def run_ops_simps)
next
  case (Cons p ps)
  note run = subscribe_running[OF Cons.prems, of "fst p" "snd p"]
  from run Cons.prems have "map_of (intervals (subscribe key (fst p) (snd p) s)) key = Some h"
    by simp
  from Cons.IH[OF this] run show ?case
    by (simp add: subscriptions_def run_ops_simps)
qed

lemma timers_of_idle:
  assumes "hub_wf s" and "map_of (intervals s) key = None"
  shows "timers_of key s = []"
proof -
  have "fst (snd t) \<noteq> key" if "t \<in> set (timers s)" for t
  proof -
    obtain h k ms where t: "t = (h, k, ms)" by (cases t)
    with that have "(h, k, ms) \<in> set (timers s)" by simp
    from hub_wfD(4)[OF assms(1) this] assms(2) show ?thesis by (auto simp: t)
  qed
  then show ?thesis by (simp add: timers_of_def filter_empty_conv)
qed

text \<open>
  Claim C6: from any state the manager can reach in which \<open>key\<close> has no timer, after \<open>N \<ge> 1\<close>
  calls of \<^verbatim>\<open>subscribe\<close> for \<open>key\<close>, with any callbacks and periods, exactly one live timer polls
  \<open>key\<close>; it is the one the first call created, with the period of the first call. Calls of
  \<^verbatim>\<open>subscribe\<close> for a key that has a timer leave the timers as they are.
\<close>

theorem one_timer_first_period:
  "(map_of (intervals (run_ops pre new_hub)) key = None \<longrightarrow>
      timers_of key (run_ops (Subscribe key cb ms # subscriptions key later) (run_ops pre new_hub)) =
        [(next_timer (run_ops pre new_hub), key, ms)] \<and>
      map_of (intervals (run_ops (Subscribe key cb ms # subscriptions key later)
        (run_ops pre new_hub))) key = Some (next_timer (run_ops pre new_hub))) \<and>
   (map_of (intervals s) key = Some h \<longrightarrow>
      timers (run_ops (subscriptions key later) s) = timers s \<and>
      intervals (run_ops (subscriptions key later) s) = intervals s)"
proof (intro conjI impI)
  let ?s = "run_ops pre new_hub"
  assume idle: "map_of (intervals ?s) key = None"
  note new = subscribe_new[OF idle, of cb ms]
  from new have running: "map_of (intervals (subscribe key cb ms ?s)) key = Some (next_timer ?s)"
    by simp
  note rest = subscriptions_running[OF running, of later]
  have "timers_of key (run_ops (Subscribe key cb ms # subscriptions key later) ?s) =
      timers_of key ?s @ [(next_timer ?s, key, ms)]"
    using rest new by (simp add: run_ops_simps timers_of_def)
  also have "timers_of key ?s = []"
    using reachable_wf idle by (rule timers_of_idle)
  finally show "timers_of key (run_ops (Subscribe key cb ms # subscriptions key later) ?s) =
      [(next_timer ?s, key, ms)]" by simp
  from rest running
  show "map_of (intervals (run_ops (Subscribe key cb ms # subscriptions key later) ?s)) key =
      Some (next_timer ?s)"
    by (simp add: run_ops_simps)
next
  assume "map_of (intervals s) key = Some h"
  from subscriptions_running[OF this, of later]
  show "timers (run_ops (subscriptions key later) s) = timers s"
    and "intervals (run_ops (subscriptions key later) s) = intervals s"
    by simp_all
qed

theorem one_timer_first_period_witness:
  "map_of (intervals (run_ops [] new_hub)) ''metrics'' = None \<and>
   timers_of ''metrics''
     (run_ops (Subscribe ''metrics'' 1 5000 # subscriptions ''metrics'' [(2, 15000)])
        (run_ops [] new_hub)) = [(0, ''metrics'', 5000)] \<and>
   map_of (intervals (run_ops [Subscribe ''metrics'' 1 5000] new_hub)) ''metrics'' = Some 0 \<and>
   timers (run_ops (subscriptions ''metrics'' [(2, 15000)])
     (run_ops [Subscribe ''metrics'' 1 5000] new_hub)) = [(0, ''metrics'', 5000)]"
proof -
  have a: "map_of (intervals (run_ops [] new_hub)) ''metrics'' = None"
    by (simp add: run_ops_simps new_hub_def)
  have b: "next_timer (run_ops [] new_hub) = 0"
    by (simp add: run_ops_simps new_hub_def)
  have c: "map_of (intervals (run_ops [Subscribe ''metrics'' 1 5000] new_hub)) ''metrics'' = Some 0"
    "timers (run_ops [Subscribe ''metrics'' 1 5000] new_hub) = [(0, ''metrics'', 5000)]"
    by code_simp+
  from one_timer_first_period[of "[]" "''metrics''" 1 5000 "[(2, 15000)]"
      "run_ops [Subscribe ''metrics'' 1 5000] new_hub" 0] a b c
  show ?thesis by simp
qed

subsection \<open>Timers and subscriber sets\<close>

text \<open>
  Claim C7: after every sequence of \<^verbatim>\<open>subscribe\<close> calls, calls of returned unsubscribe functions
  and \<^verbatim>\<open>stopAll\<close> calls on a new manager, a key has an entry in \<^verbatim>\<open>intervals\<close> if and only if
  its subscriber set is there and not empty. Unsubscribing the last callback of a key clears
  its timer and removes the key from both maps; a \<^verbatim>\<open>subscribe\<close> for the key after that starts a
  timer with a handle never used before, with the new period.
\<close>

theorem timer_iff_subscribers:
  "(\<forall>k. (map_of (intervals (run_ops ops new_hub)) k \<noteq> None) =
         (\<exists>cbs. map_of (subscribers (run_ops ops new_hub)) k = Some cbs \<and> cbs \<noteq> [])) \<and>
   (map_of (subscribers (run_ops ops new_hub)) key = Some [cb] \<and>
    map_of (intervals (run_ops ops new_hub)) key = Some h \<longrightarrow>
      map_of (timers (unsubscribe key cb (run_ops ops new_hub))) h = None \<and>
      timers_of key (unsubscribe key cb (run_ops ops new_hub)) = [] \<and>
      map_of (intervals (unsubscribe key cb (run_ops ops new_hub))) key = None \<and>
      map_of (subscribers (unsubscribe key cb (run_ops ops new_hub))) key = None \<and>
      timers_of key (subscribe key cb' ms (unsubscribe key cb (run_ops ops new_hub))) =
        [(next_timer (run_ops ops new_hub), key, ms)] \<and>
      map_of (intervals (subscribe key cb' ms (unsubscribe key cb (run_ops ops new_hub)))) key =
        Some (next_timer (run_ops ops new_hub)) \<and>
      map_of (subscribers (subscribe key cb' ms (unsubscribe key cb (run_ops ops new_hub)))) key =
        Some [cb'] \<and>
      h < next_timer (run_ops ops new_hub))"
proof (intro conjI allI impI)
  fix k
  let ?s = "run_ops ops new_hub"
  note wf = hub_wfD[OF reachable_wf[of ops]]
  show "(map_of (intervals ?s) k \<noteq> None) = (\<exists>cbs. map_of (subscribers ?s) k = Some cbs \<and> cbs \<noteq> [])"
    using wf(2)[of k] wf(3)[of k] by auto
next
  let ?s = "run_ops ops new_hub"
  let ?u = "unsubscribe key cb ?s"
  assume a: "map_of (subscribers ?s) key = Some [cb] \<and> map_of (intervals ?s) key = Some h"
  note wf = hub_wfD[OF reachable_wf[of ops]]
  have last: "set_delete cb [cb] = []" by (simp add: set_delete_def)
  from a have eq: "?u = ?s\<lparr>timers := clearInterval h (timers ?s),
      intervals := AList.delete key (intervals ?s),
      subscribers := AList.delete key (subscribers ?s)\<rparr>"
    using unsubscribe_last[OF _ last, of ?s key h] by simp
  have wfu: "hub_wf ?u" using reachable_wf by (rule unsubscribe_wf)
  show gone: "map_of (intervals ?u) key = None" by (simp add: eq delete_conv')
  show "map_of (subscribers ?u) key = None" by (simp add: eq delete_conv')
  have "h \<notin> fst ` set (timers ?u)" by (auto simp: eq set_clearInterval)
  then show "map_of (timers ?u) h = None" by (simp add: map_of_eq_None_iff)
  show idle: "timers_of key ?u = []" using wfu gone by (rule timers_of_idle)
  have nt: "next_timer ?u = next_timer ?s" by (simp add: eq)
  note new = subscribe_new[OF gone, of cb' ms]
  show "timers_of key (subscribe key cb' ms ?u) = [(next_timer ?s, key, ms)]"
    using idle by (simp add: new nt timers_of_def)
  show "map_of (intervals (subscribe key cb' ms ?u)) key = Some (next_timer ?s)"
    by (simp add: new nt)
  show "map_of (subscribers (subscribe key cb' ms ?u)) key = Some [cb']"
    by (simp add: subscribe_subscribers eq delete_conv' set_add_def)
  from a wf(5)[of key h] obtain m where "(h, key, m) \<in> set (timers ?s)" by blast
  from wf(4)[OF this] show "h < next_timer ?s" by simp
qed

theorem timer_iff_subscribers_witness:
  "map_of (subscribers (run_ops [Subscribe ''metrics'' 1 5000] new_hub)) ''metrics'' = Some [1] \<and>
   map_of (intervals (run_ops [Subscribe ''metrics'' 1 5000] new_hub)) ''metrics'' = Some 0 \<and>
   timers_of ''metrics'' (unsubscribe ''metrics'' 1 (run_ops [Subscribe ''metrics'' 1 5000] new_hub)) = [] \<and>
   timers_of ''metrics'' (subscribe ''metrics'' 2 15000
     (unsubscribe ''metrics'' 1 (run_ops [Subscribe ''metrics'' 1 5000] new_hub))) =
     [(1, ''metrics'', 15000)]"
proof -
  have a: "map_of (subscribers (run_ops [Subscribe ''metrics'' 1 5000] new_hub)) ''metrics'' = Some [1]"
    "map_of (intervals (run_ops [Subscribe ''metrics'' 1 5000] new_hub)) ''metrics'' = Some 0"
    "next_timer (run_ops [Subscribe ''metrics'' 1 5000] new_hub) = 1"
    by code_simp+
  from timer_iff_subscribers[of "[Subscribe ''metrics'' 1 5000]" "''metrics''" 1 0 2 15000] a
  show ?thesis by simp
qed

subsection \<open>Keys without a data source\<close>

lemma timer_entry:
  assumes "hub_wf s" and "map_of (intervals s) key = Some h"
  shows "\<exists>p. map_of (timers s) h = Some (key, p)"
proof -
  from hub_wfD(5)[OF assms] obtain p where "(h, key, p) \<in> set (timers s)" by blast
  with hub_wfD(1)[OF assms(1)] have "map_of (timers s) h = Some (key, p)"
    by (rule map_of_is_SomeI)
  then show ?thesis by blast
qed

lemma keeps_timer:
  assumes wf: "hub_wf s" and h: "map_of (intervals s) key = Some h"
    and t: "map_of (timers s) h = Some (key, p)" and keep: "keeps key op"
  shows "map_of (intervals (apply_op op s)) key = Some h \<and>
         map_of (timers (apply_op op s)) h = Some (key, p)"
proof (cases op)
  case (Subscribe k cb ms)
  show ?thesis
  proof (cases "map_of (intervals s) k")
    case None
    with h have "k \<noteq> key" by auto
    with h t show ?thesis
      by (simp add: Subscribe subscribe_new[OF None] map_add_Some_iff)
  next
    case (Some h')
    with h t show ?thesis by (simp add: Subscribe subscribe_running[OF Some])
  qed
next
  case (Unsubscribe k cb)
  with keep have ne: "k \<noteq> key" by simp
  show ?thesis
  proof (cases "map_of (subscribers s) k")
    case None
    with h t show ?thesis by (simp add: Unsubscribe unsubscribe_absent)
  next
    case (Some cbs)
    show ?thesis
    proof (cases "set_delete cb cbs = []")
      case True
      from hub_wfD(2)[OF wf, of k] Some obtain h' where h': "map_of (intervals s) k = Some h'"
        by (cases "map_of (intervals s) k") auto
      from timer_entry[OF wf h'] obtain p' where "map_of (timers s) h' = Some (k, p')" by blast
      with t ne have "h' \<noteq> h" by auto
      with h t ne show ?thesis
        by (simp add: Unsubscribe unsubscribe_last[OF Some True h'] clearInterval_def delete_conv')
    next
      case False
      with h t show ?thesis by (simp add: Unsubscribe unsubscribe_other[OF Some False])
    qed
  qed
next
  case StopAll
  with keep show ?thesis by simp
qed

lemma keeps_timer_run:
  "hub_wf s \<Longrightarrow> map_of (intervals s) key = Some h \<Longrightarrow> map_of (timers s) h = Some (key, p) \<Longrightarrow>
   list_all (keeps key) later \<Longrightarrow>
   map_of (intervals (run_ops later s)) key = Some h \<and>
   map_of (timers (run_ops later s)) h = Some (key, p)"
proof (induction later arbitrary: s)
  case Nil
  then show ?case by (simp add: run_ops_simps)
next
  case (Cons op later)
  from Cons.prems have k: "keeps key op" "list_all (keeps key) later" by simp_all
  from keeps_timer[OF Cons.prems(1,2,3) k(1)] apply_op_wf[OF Cons.prems(1), of op] k(2)
  show ?case by (simp add: run_ops_simps Cons.IH)
qed

lemma tick_unknown:
  "key \<notin> {''predictions'', ''metrics'', ''realtime'', ''health''} \<Longrightarrow>
   tick net throws key s w = (w, [], Returned)"
  by (simp add: tick_def stream_call_def)

text \<open>
  Claim C9: for a key other than \<^verbatim>\<open>predictions\<close>, \<^verbatim>\<open>metrics\<close>, \<^verbatim>\<open>realtime\<close> and \<^verbatim>\<open>health\<close>,
  \<^verbatim>\<open>subscribe\<close> still registers the callback and, when the key had no timer, starts one with the
  given period. Every run of the timer's function returns at once: no request, no cache
  change, no callback called. The timer stays live through every operation other than
  \<^verbatim>\<open>stopAll\<close> and the unsubscribe functions of the key; \<^verbatim>\<open>stopAll\<close> clears it.
\<close>

theorem unknown_key_idle_timer:
  assumes "key \<notin> {''predictions'', ''metrics'', ''realtime'', ''health''}"
  shows "(\<exists>cbs. map_of (subscribers (subscribe key cb ms (run_ops ops new_hub))) key = Some cbs \<and>
            cb \<in> set cbs) \<and>
         (map_of (intervals (run_ops ops new_hub)) key = None \<longrightarrow>
            timers_of key (subscribe key cb ms (run_ops ops new_hub)) =
              [(next_timer (run_ops ops new_hub), key, ms)]) \<and>
         (\<exists>h p. map_of (intervals (subscribe key cb ms (run_ops ops new_hub))) key = Some h \<and>
            map_of (timers (subscribe key cb ms (run_ops ops new_hub))) h = Some (key, p) \<and>
            (list_all (keeps key) later \<longrightarrow>
               map_of (intervals (run_ops later (subscribe key cb ms (run_ops ops new_hub)))) key =
                 Some h \<and>
               map_of (timers (run_ops later (subscribe key cb ms (run_ops ops new_hub)))) h =
                 Some (key, p) \<and>
               fire net throws h (run_ops later (subscribe key cb ms (run_ops ops new_hub))) w =
                 (w, [], Returned))) \<and>
         tick net throws key s w = (w, [], Returned) \<and>
         timers (stopAll (subscribe key cb ms (run_ops ops new_hub))) = []"
proof -
  let ?base = "run_ops ops new_hub"
  let ?s = "subscribe key cb ms ?base"
  have wf0: "hub_wf ?base" by (rule reachable_wf)
  have wf: "hub_wf ?s" using wf0 by (rule subscribe_wf)
  have 1: "\<exists>cbs. map_of (subscribers ?s) key = Some cbs \<and> cb \<in> set cbs"
    by (simp add: subscribe_subscribers set_add_props)
  have 2: "timers_of key ?s = [(next_timer ?base, key, ms)]"
    if idle: "map_of (intervals ?base) key = None"
    using timers_of_idle[OF wf0 idle] by (simp add: subscribe_new[OF idle] timers_of_def)
  from 1 hub_wfD(2)[OF wf, of key] obtain h where h: "map_of (intervals ?s) key = Some h"
    by (cases "map_of (intervals ?s) key") auto
  from timer_entry[OF wf h] obtain p where p: "map_of (timers ?s) h = Some (key, p)" by blast
  have 3: "map_of (intervals (run_ops later ?s)) key = Some h \<and>
      map_of (timers (run_ops later ?s)) h = Some (key, p) \<and>
      fire net throws h (run_ops later ?s) w = (w, [], Returned)"
    if "list_all (keeps key) later"
    using keeps_timer_run[OF wf h p that] tick_unknown[OF assms]
    by (simp add: fire_def)
  have 4: "tick net throws key s w = (w, [], Returned)"
    using assms by (rule tick_unknown)
  have 5: "timers (stopAll ?s) = []" using wf by (rule stopAll_timers)
  from 1 2 3 4 5 h p show ?thesis by blast
qed

theorem unknown_key_idle_timer_witness:
  "''weather'' \<notin> {''predictions'', ''metrics'', ''realtime'', ''health''} \<and>
   map_of (intervals (run_ops [] new_hub)) ''weather'' = None \<and>
   timers_of ''weather'' (subscribe ''weather'' 1 1000 (run_ops [] new_hub)) =
     [(0, ''weather'', 1000)] \<and>
   tick (failing_first 0) none_throws ''weather''
     (subscribe ''weather'' 1 1000 (run_ops [] new_hub)) empty_world = (empty_world, [], Returned)"
proof -
  have a: "''weather'' \<notin> {''predictions'', ''metrics'', ''realtime'', ''health''}" by simp
  have b: "map_of (intervals (run_ops [] new_hub)) ''weather'' = None"
    "next_timer (run_ops [] new_hub) = 0"
    by (simp_all add: run_ops_simps new_hub_def)
  from unknown_key_idle_timer[OF a, where cb = 1 and ms = 1000 and ops = "[]" and later = "[]"
      and net = "failing_first 0" and throws = none_throws and w = empty_world
      and s = "subscribe ''weather'' 1 1000 (run_ops [] new_hub)"] a b
  show ?thesis by simp
qed

subsection \<open>The same callback subscribed twice\<close>

lemma count_list_distinct: "distinct xs \<Longrightarrow> x \<in> set xs \<Longrightarrow> count_list xs x = 1"
  by (induction xs) auto

lemma unsubscribe_stranger:
  assumes "hub_wf s" and "\<forall>cbs. map_of (subscribers s) key = Some cbs \<longrightarrow> cb \<notin> set cbs"
  shows "unsubscribe key cb s = s"
proof (cases "map_of (subscribers s) key")
  case None
  then show ?thesis by (rule unsubscribe_absent)
next
  case (Some cbs)
  with assms(2) have "set_delete cb cbs = cbs" by (simp add: set_delete_def)
  moreover from hub_wfD(3)[OF assms(1) Some] have "cbs \<noteq> []" by simp
  ultimately show ?thesis
    using Some by (simp add: unsubscribe_other[OF Some] update_triv)
qed

lemma unsubscribe_removes:
  assumes "hub_wf s"
  shows "\<forall>cbs. map_of (subscribers (unsubscribe key cb s)) key = Some cbs \<longrightarrow> cb \<notin> set cbs"
proof (cases "map_of (subscribers s) key")
  case None
  then show ?thesis by (simp add: unsubscribe_absent)
next
  case (Some cbs)
  show ?thesis
  proof (cases "set_delete cb cbs = []")
    case True
    from hub_wfD(2)[OF assms, of key] Some obtain h where h: "map_of (intervals s) key = Some h"
      by (cases "map_of (intervals s) key") auto
    show ?thesis by (simp add: unsubscribe_last[OF Some True h] delete_conv')
  next
    case False
    show ?thesis by (simp add: unsubscribe_other[OF Some False] update_conv' set_delete_def)
  qed
qed

text \<open>
  Claim C10: subscribing the same callback reference twice for a key stores it once, and the
  second call leaves the subscriber map as the first left it. One call of the unsubscribe
  function removes the callback; when it was the only one, the key's timer is cleared and the
  key leaves both maps. A further call of the unsubscribe function changes nothing, as does
  any unsubscribe function whose callback is not subscribed.
\<close>

theorem same_callback_twice:
  "(\<exists>cbs. map_of (subscribers (subscribe key cb m2 (subscribe key cb m1 (run_ops ops new_hub)))) key =
            Some cbs \<and> count_list cbs cb = 1) \<and>
   subscribers (subscribe key cb m2 (subscribe key cb m1 (run_ops ops new_hub))) =
     subscribers (subscribe key cb m1 (run_ops ops new_hub)) \<and>
   (\<forall>cbs. map_of (subscribers (unsubscribe key cb
        (subscribe key cb m2 (subscribe key cb m1 (run_ops ops new_hub))))) key = Some cbs \<longrightarrow>
      cb \<notin> set cbs) \<and>
   (map_of (subscribers (subscribe key cb m2 (subscribe key cb m1 (run_ops ops new_hub)))) key =
      Some [cb] \<longrightarrow>
      timers_of key (unsubscribe key cb
        (subscribe key cb m2 (subscribe key cb m1 (run_ops ops new_hub)))) = [] \<and>
      map_of (intervals (unsubscribe key cb
        (subscribe key cb m2 (subscribe key cb m1 (run_ops ops new_hub))))) key = None \<and>
      map_of (subscribers (unsubscribe key cb
        (subscribe key cb m2 (subscribe key cb m1 (run_ops ops new_hub))))) key = None) \<and>
   unsubscribe key cb (unsubscribe key cb
     (subscribe key cb m2 (subscribe key cb m1 (run_ops ops new_hub)))) =
   unsubscribe key cb (subscribe key cb m2 (subscribe key cb m1 (run_ops ops new_hub))) \<and>
   ((\<forall>cbs. map_of (subscribers (run_ops ops new_hub)) key = Some cbs \<longrightarrow> cb \<notin> set cbs) \<longrightarrow>
      unsubscribe key cb (run_ops ops new_hub) = run_ops ops new_hub)"
proof -
  let ?a = "subscribe key cb m1 (run_ops ops new_hub)"
  let ?b = "subscribe key cb m2 ?a"
  let ?u = "unsubscribe key cb ?b"
  have wfa: "hub_wf ?a" using reachable_wf by (rule subscribe_wf)
  then have wfb: "hub_wf ?b" by (rule subscribe_wf)
  then have wfu: "hub_wf ?u" by (rule unsubscribe_wf)
  obtain cbs where cbs: "map_of (subscribers ?b) key = Some cbs" "cb \<in> set cbs"
    by (simp add: subscribe_subscribers set_add_props)
  from hub_wfD(3)[OF wfb cbs(1)] cbs(2) have 1: "count_list cbs cb = 1"
    by (simp add: count_list_distinct)
  obtain cbs' where cbs': "map_of (subscribers ?a) key = Some cbs'" "cb \<in> set cbs'"
    by (simp add: subscribe_subscribers set_add_props)
  from hub_wfD(2)[OF wfa, of key] cbs'(1) obtain h where h: "map_of (intervals ?a) key = Some h"
    by (cases "map_of (intervals ?a) key") auto
  have 2: "subscribers ?b = subscribers ?a"
    using cbs' h by (simp add: subscribe_def[of key cb m2] Let_def set_add_def update_triv)
  note 3 = unsubscribe_removes[OF wfb, of key cb]
  have 4: "timers_of key ?u = [] \<and> map_of (intervals ?u) key = None \<and>
      map_of (subscribers ?u) key = None"
    if only: "map_of (subscribers ?b) key = Some [cb]"
  proof -
    from hub_wfD(2)[OF wfb, of key] only obtain h' where h': "map_of (intervals ?b) key = Some h'"
      by (cases "map_of (intervals ?b) key") auto
    have last: "set_delete cb [cb] = []" by (simp add: set_delete_def)
    note eq = unsubscribe_last[OF only last h']
    have gone: "map_of (intervals ?u) key = None" by (simp add: eq delete_conv')
    moreover have "map_of (subscribers ?u) key = None" by (simp add: eq delete_conv')
    moreover have "timers_of key ?u = []" using wfu gone by (rule timers_of_idle)
    ultimately show ?thesis by simp
  qed
  have 5: "unsubscribe key cb ?u = ?u" using wfu 3 by (rule unsubscribe_stranger)
  have 6: "unsubscribe key cb (run_ops ops new_hub) = run_ops ops new_hub"
    if "\<forall>cbs. map_of (subscribers (run_ops ops new_hub)) key = Some cbs \<longrightarrow> cb \<notin> set cbs"
    using reachable_wf that by (rule unsubscribe_stranger)
  from cbs(1) 1 2 3 4 5 6 show ?thesis by blast
qed

theorem same_callback_twice_witness:
  "map_of (subscribers (subscribe ''health'' 7 30000 (subscribe ''health'' 7 10000 (run_ops [] new_hub))))
     ''health'' = Some [7] \<and>
   unsubscribe ''health'' 7 (subscribe ''health'' 7 30000
     (subscribe ''health'' 7 10000 (run_ops [] new_hub))) = new_hub\<lparr>next_timer := 1\<rparr> \<and>
   timers_of ''health'' (unsubscribe ''health'' 7 (subscribe ''health'' 7 30000
     (subscribe ''health'' 7 10000 (run_ops [] new_hub)))) = [] \<and>
   unsubscribe ''health'' 7 (unsubscribe ''health'' 7 (subscribe ''health'' 7 30000
     (subscribe ''health'' 7 10000 (run_ops [] new_hub)))) = new_hub\<lparr>next_timer := 1\<rparr> \<and>
   unsubscribe ''health'' 7 (run_ops [] new_hub) = run_ops [] new_hub"
proof -
  have a: "map_of (subscribers (subscribe ''health'' 7 30000
      (subscribe ''health'' 7 10000 (run_ops [] new_hub)))) ''health'' = Some [7]"
    by code_simp
  have b: "unsubscribe ''health'' 7 (subscribe ''health'' 7 30000
      (subscribe ''health'' 7 10000 (run_ops [] new_hub))) = new_hub\<lparr>next_timer := 1\<rparr>"
    by code_simp
  have c: "\<forall>cbs. map_of (subscribers (run_ops [] new_hub)) ''health'' = Some cbs \<longrightarrow> 7 \<notin> set cbs"
    by (simp add: run_ops_simps new_hub_def)
  from same_callback_twice[of "''health''" 7 30000 10000 "[]"] a b c
  show ?thesis by simp
qed

subsection \<open>Delivery to the subscribers\<close>

text \<open>
  Claim C2 says that a tick delivers the fetched result to every registered callback even when
  one of them throws. The code does not: two callbacks are subscribed to \<^verbatim>\<open>metrics\<close>, neither
  calls back into the manager, the timer is live and the backend answers. When no callback
  throws, the tick calls both with the result. When the callback subscribed first throws, the
  tick calls that one only and ends in its \<^verbatim>\<open>catch\<close> block: the callback subscribed second
  does not get the result.
\<close>

theorem throwing_callback_stops_delivery:
  "map_of (subscribers two_listeners) ''metrics'' = Some [1, 2] \<and>
   timers_of ''metrics'' two_listeners = [(0, ''metrics'', 5000)] \<and>
   fst (getMetrics (failing_first 0) empty_world) = Inr (JStr ''ready'') \<and>
   fst (snd (fire (failing_first 0) none_throws 0 two_listeners empty_world)) =
     [(1, JStr ''ready''), (2, JStr ''ready'')] \<and>
   snd (snd (fire (failing_first 0) none_throws 0 two_listeners empty_world)) = Notified \<and>
   first_throws 1 (JStr ''ready'') \<and>
   fst (snd (fire (failing_first 0) first_throws 0 two_listeners empty_world)) =
     [(1, JStr ''ready'')] \<and>
   snd (snd (fire (failing_first 0) first_throws 0 two_listeners empty_world)) = CaughtCallback 1"
  by code_simp

end
